theory Spec2Isabelle
  imports Main "HOL-Library.Word"
begin

unbundle bit_operations_syntax

section \<open>Data model\<close>

text \<open>
  The trigger module of the simulator: \<^verbatim>\<open>Triggers.cpp\<close> holds the methods of the bank
  (\<^verbatim>\<open>Triggers<URV>\<close>) and the match methods of one trigger (\<^verbatim>\<open>Trigger<URV>\<close>).
  The register type \<^verbatim>\<open>URV\<close> (\<^verbatim>\<open>uint32_t\<close> or \<^verbatim>\<open>uint64_t\<close>) is \<open>'a word\<close>.

  The header that declares the classes is not among the sources. The enumerations and the
  fields below are the ones the source text names; what only the header fixes is either
  modelled from the specification (and marked so) or taken as a parameter.
\<close>

text \<open>
  Modelled from the spec: the enumerations \<^verbatim>\<open>TriggerType\<close>, \<^verbatim>\<open>TriggerTiming\<close>,
  \<^verbatim>\<open>Select\<close> and \<^verbatim>\<open>Match\<close> (declared in the header). The source uses
  \<^verbatim>\<open>TriggerType::AddrData\<close>, \<^verbatim>\<open>Select::MatchAddress\<close>, \<^verbatim>\<open>Select::MatchData\<close> and
  the six \<^verbatim>\<open>Match\<close> enumerators; the spec adds the instruction-count type and the two
  timings. \<open>OtherType\<close> stands for every trigger type that is not modelled.
\<close>

datatype TriggerType = AddrData | Icount | OtherType

datatype TriggerTiming = Before | After

datatype Select = MatchAddress | MatchData

datatype Match = Equal | Masked | GE | LT | MaskHighEqualLow | MaskLowEqualHigh

text \<open>
  Modelled from the spec: the numbering of the \<^verbatim>\<open>Match\<close> enumerators. The cast
  \<^verbatim>\<open>Match(data1_.mcontrol_.match_)\<close> turns the number held in the bit-field into an
  enumerator; the enumerators are numbered from 0 in the order the spec lists them
  (which is also the order of the \<^verbatim>\<open>case\<close> labels in \<^verbatim>\<open>doMatch\<close>). A number that is
  no enumerator decodes to \<open>None\<close>.
\<close>

definition decodeMatch :: "nat \<Rightarrow> Match option" where
  "decodeMatch n =
     (if n = 0 then Some Equal
      else if n = 1 then Some Masked
      else if n = 2 then Some GE
      else if n = 3 then Some LT
      else if n = 4 then Some MaskHighEqualLow
      else if n = 5 then Some MaskLowEqualHigh
      else None)"

text \<open>
  Modelled from the spec: the layout of register \<^verbatim>\<open>data1_\<close> (a union of bit-field views
  declared in the header), as a record of the decoded fields. The source reads
  \<^verbatim>\<open>type_\<close>, \<^verbatim>\<open>m_\<close>, \<^verbatim>\<open>match_\<close>, \<^verbatim>\<open>timing_\<close>, \<^verbatim>\<open>select_\<close>, \<^verbatim>\<open>load_\<close>, \<^verbatim>\<open>store_\<close> and
  \<^verbatim>\<open>execute_\<close> by these names (a trailing underscore is not an Isabelle name, so the
  fields carry the prefix \<open>mc_\<close> instead). The chain bit and the policy bit are the
  two other control fields the spec's data model lists; the source reaches them through
  \<^verbatim>\<open>getChain()\<close> and \<^verbatim>\<open>isEnterDebugOnHit()\<close>. \<open>mc_match\<close> holds the number in the
  bit-field, the other fields their decoded values.
\<close>

record Mcontrol =
  mc_type :: TriggerType
  mc_m :: bool
  mc_match :: nat
  mc_chain :: bool
  mc_timing :: TriggerTiming
  mc_select :: Select
  mc_load :: bool
  mc_store :: bool
  mc_execute :: bool
  mc_enterDebug :: bool

text \<open>
  Modelled from the spec: the other members of \<^verbatim>\<open>Trigger\<close> (declared in the header).
  \<open>data1\<close>, \<open>data2\<close>, \<open>data3\<close> and \<open>data2CompareMask\<close> are the members \<^verbatim>\<open>data1_\<close>,
  \<^verbatim>\<open>data2_\<close>, \<^verbatim>\<open>data3_\<close> and \<^verbatim>\<open>data2CompareMask_\<close> that the source names; the other
  fields are those of the spec's data model: reset values, write masks, poke masks, the
  chain range \<open>[begin, end)\<close>, the two hit flags, the modified flag and the countdown.
\<close>

record (overloaded) ('a::len) Trigger =
  data1 :: Mcontrol
  data2 :: "'a word"
  data3 :: "'a word"
  data2CompareMask :: "'a word"
  resetValue1 :: "'a word"
  resetValue2 :: "'a word"
  resetValue3 :: "'a word"
  writeMask1 :: "'a word"
  writeMask2 :: "'a word"
  writeMask3 :: "'a word"
  pokeMask1 :: "'a word"
  pokeMask2 :: "'a word"
  pokeMask3 :: "'a word"
  chainBegin :: nat
  chainEnd :: nat
  hit :: bool
  localHit :: bool
  modified :: bool
  countdown :: nat

text \<open>The bank: the vector \<^verbatim>\<open>triggers_\<close> and the flag \<^verbatim>\<open>chainPairs_\<close>.\<close>

record (overloaded) ('a::len) Triggers =
  triggers :: "'a Trigger list"
  chainPairs :: bool

text \<open>\<^verbatim>\<open>std::vector::at\<close> throws \<^verbatim>\<open>std::out_of_range\<close> for an index that is not below the size.\<close>

datatype error = OutOfRange

subsection \<open>Accessors of one trigger\<close>

text \<open>
  Modelled from the spec: the accessors of \<^verbatim>\<open>Trigger\<close> that the bank calls and the header
  defines. Each reads or writes the one field of the data model it is named after:
  the chain bit, the timing, the chain range \<open>[begin, end)\<close>, \<open>localHit\<close>, \<open>hit\<close>, the
  modified flag, and the policy bit of the control register.
\<close>

definition getChain :: "'a::len Trigger \<Rightarrow> bool" where
  "getChain t = mc_chain (data1 t)"

definition getTiming :: "'a::len Trigger \<Rightarrow> TriggerTiming" where
  "getTiming t = mc_timing (data1 t)"

definition setChainBounds :: "nat \<Rightarrow> nat \<Rightarrow> 'a::len Trigger \<Rightarrow> 'a Trigger" where
  "setChainBounds b e t = t\<lparr>chainBegin := b, chainEnd := e\<rparr>"

definition getChainBounds :: "'a::len Trigger \<Rightarrow> nat \<times> nat" where
  "getChainBounds t = (chainBegin t, chainEnd t)"

definition getLocalHit :: "'a::len Trigger \<Rightarrow> bool" where
  "getLocalHit t = localHit t"

definition setLocalHit :: "bool \<Rightarrow> 'a::len Trigger \<Rightarrow> 'a Trigger" where
  "setLocalHit flag t = t\<lparr>localHit := flag\<rparr>"

definition getHit :: "'a::len Trigger \<Rightarrow> bool" where
  "getHit t = hit t"

definition setHit :: "bool \<Rightarrow> 'a::len Trigger \<Rightarrow> 'a Trigger" where
  "setHit flag t = t\<lparr>hit := flag\<rparr>"

definition isModified :: "'a::len Trigger \<Rightarrow> bool" where
  "isModified t = modified t"

definition isEnterDebugOnHit :: "'a::len Trigger \<Rightarrow> bool" where
  "isEnterDebugOnHit t = mc_enterDebug (data1 t)"

text \<open>
  Modelled from the spec: \<^verbatim>\<open>firesOnInterruptOnly()\<close>, the accessor in the spec's gate of
  the hit functions (``skip unless \<^verbatim>\<open>firesOnInterruptOnly()\<close> is false or
  \<^verbatim>\<open>interruptsEnabled\<close> is true''). The header has no method of this name. The gate of the
  source skips a trigger when \<^verbatim>\<open>isEnterDebugOnHit()\<close> is false and interrupts are disabled:
  a trigger that does not enter debug mode on a hit fires only while interrupts are
  enabled. So the accessor is the negation of \<^verbatim>\<open>isEnterDebugOnHit()\<close>.
\<close>

definition firesOnInterruptOnly :: "'a::len Trigger \<Rightarrow> bool" where
  "firesOnInterruptOnly t = (\<not> isEnterDebugOnHit t)"

text \<open>
  The register operations of \<^verbatim>\<open>Trigger\<close> that the header defines and the bank calls:
  reads, masked writes, pokes, configuration, peeks, the countdown of an instruction-count
  trigger, the reset and the default constructor. They are parameters of the bank's
  operations: every theorem about the bank holds for whatever these operations do.
  A write returns its \<^verbatim>\<open>bool\<close> result with the trigger it leaves behind; a peek receives
  the caller's output variables and returns them updated.
\<close>

type_synonym 'a regs3 = "'a word \<times> 'a word \<times> 'a word"

record (overloaded) ('a::len) TriggerOps =
  trigReadData1 :: "'a Trigger \<Rightarrow> 'a word"
  trigReadData2 :: "'a Trigger \<Rightarrow> 'a word"
  trigReadData3 :: "'a Trigger \<Rightarrow> 'a word"
  trigWriteData1 :: "bool \<Rightarrow> 'a word \<Rightarrow> 'a Trigger \<Rightarrow> bool \<times> 'a Trigger"
  trigWriteData2 :: "bool \<Rightarrow> 'a word \<Rightarrow> 'a Trigger \<Rightarrow> bool \<times> 'a Trigger"
  trigPokeData1 :: "'a word \<Rightarrow> 'a Trigger \<Rightarrow> 'a Trigger"
  trigPokeData2 :: "'a word \<Rightarrow> 'a Trigger \<Rightarrow> 'a Trigger"
  trigPokeData3 :: "'a word \<Rightarrow> 'a Trigger \<Rightarrow> 'a Trigger"
  trigConfigData1 :: "'a word \<Rightarrow> 'a word \<Rightarrow> 'a word \<Rightarrow> 'a Trigger \<Rightarrow> 'a Trigger"
  trigConfigData2 :: "'a word \<Rightarrow> 'a word \<Rightarrow> 'a word \<Rightarrow> 'a Trigger \<Rightarrow> 'a Trigger"
  trigConfigData3 :: "'a word \<Rightarrow> 'a word \<Rightarrow> 'a word \<Rightarrow> 'a Trigger \<Rightarrow> 'a Trigger"
  trigPeek :: "'a Trigger \<Rightarrow> 'a regs3 \<Rightarrow> bool \<times> 'a regs3"
  trigPeekMasks :: "'a Trigger \<Rightarrow> 'a regs3 \<times> 'a regs3 \<times> 'a regs3
                      \<Rightarrow> bool \<times> 'a regs3 \<times> 'a regs3 \<times> 'a regs3"
  trigInstCountdown :: "'a Trigger \<Rightarrow> bool \<times> 'a Trigger"
  trigReset :: "'a Trigger \<Rightarrow> 'a Trigger"
  trigDefault :: "'a Trigger"

section \<open>The match methods of a trigger\<close>

text \<open>
  \<^verbatim>\<open>Trigger::doMatch\<close>. \<^verbatim>\<open>halfBitCount = 4*sizeof(URV)\<close> is half the register width.
  Each method returns its result together with the trigger it leaves behind, statement by
  statement; \<^verbatim>\<open>item\<close> is a by-value parameter, so the assignment to it is a \<open>let\<close>.
\<close>

definition halfBitCount :: "'a::len word \<Rightarrow> nat" where
  "halfBitCount w = 4 * (LENGTH('a) div 8)"

definition doMatch :: "'a::len Trigger \<Rightarrow> 'a word \<Rightarrow> bool \<times> 'a Trigger" where
  "doMatch t item =
     (case decodeMatch (mc_match (data1 t)) of
        Some Equal \<Rightarrow> (item = data2 t, t)
      | Some Masked \<Rightarrow> (item AND data2CompareMask t = data2 t AND data2CompareMask t, t)
      | Some GE \<Rightarrow> (item \<ge> data2 t, t)
      | Some LT \<Rightarrow> (item < data2 t, t)
      | Some MaskHighEqualLow \<Rightarrow>
          (let h = halfBitCount item;
               item = item AND drop_bit h (data2 t)
           in (push_bit h item = push_bit h (data2 t), t))
      | Some MaskLowEqualHigh \<Rightarrow>
          (let h = halfBitCount item;
               item = item AND push_bit h (data2 t)
           in (drop_bit h item = drop_bit h (data2 t), t))
      | None \<Rightarrow> (False, t))"

definition matchLdStAddr ::
  "'a::len Trigger \<Rightarrow> 'a word \<Rightarrow> TriggerTiming \<Rightarrow> bool \<Rightarrow> bool \<times> 'a Trigger" where
  "matchLdStAddr t address timing isLoad =
     (if mc_type (data1 t) \<noteq> AddrData then (False, t)
      else if \<not> mc_m (data1 t) then (False, t)
      else
        let isStore = \<not> isLoad; ctl = data1 t in
        if mc_timing ctl = timing \<and> mc_select ctl = MatchAddress \<and>
           ((isLoad \<and> mc_load ctl) \<or> (isStore \<and> mc_store ctl))
        then doMatch t address
        else (False, t))"

definition matchLdStData ::
  "'a::len Trigger \<Rightarrow> 'a word \<Rightarrow> TriggerTiming \<Rightarrow> bool \<Rightarrow> bool \<times> 'a Trigger" where
  "matchLdStData t val timing isLoad =
     (if mc_type (data1 t) \<noteq> AddrData then (False, t)
      else if \<not> mc_m (data1 t) then (False, t)
      else
        let isStore = \<not> isLoad; ctl = data1 t in
        if mc_timing ctl = timing \<and> mc_select ctl = MatchData \<and>
           ((isLoad \<and> mc_load ctl) \<or> (isStore \<and> mc_store ctl))
        then doMatch t val
        else (False, t))"

definition matchInstAddr ::
  "'a::len Trigger \<Rightarrow> 'a word \<Rightarrow> TriggerTiming \<Rightarrow> bool \<times> 'a Trigger" where
  "matchInstAddr t address timing =
     (if mc_type (data1 t) \<noteq> AddrData then (False, t)
      else if \<not> mc_m (data1 t) then (False, t)
      else
        let ctl = data1 t in
        if mc_timing ctl = timing \<and> mc_select ctl = MatchAddress \<and> mc_execute ctl
        then doMatch t address
        else (False, t))"

definition matchInstOpcode ::
  "'a::len Trigger \<Rightarrow> 'a word \<Rightarrow> TriggerTiming \<Rightarrow> bool \<times> 'a Trigger" where
  "matchInstOpcode t opcode timing =
     (if mc_type (data1 t) \<noteq> AddrData then (False, t)
      else if \<not> mc_m (data1 t) then (False, t)
      else
        let ctl = data1 t in
        if mc_timing ctl = timing \<and> mc_select ctl = MatchData \<and> mc_execute ctl
        then doMatch t opcode
        else (False, t))"

section \<open>The bank of triggers\<close>

subsection \<open>Chain bounds\<close>

text \<open>
  \<^verbatim>\<open>Triggers::defineChainBounds\<close>. Every \<^verbatim>\<open>triggers_.at(k)\<close> in it is guarded by a loop
  condition that keeps \<open>k\<close> below the size, so no access throws.

  The loop \<^verbatim>\<open>for (j = begin; j < end; j++) triggers_.at(j).setChainBounds(begin, end)\<close>,
  over the indices it visits:
\<close>

fun setBoundsLoop :: "'a::len Trigger list \<Rightarrow> nat list \<Rightarrow> nat \<Rightarrow> nat \<Rightarrow> 'a Trigger list" where
  "setBoundsLoop trigs [] b e = trigs"
| "setBoundsLoop trigs (j # js) b e =
     setBoundsLoop (trigs[j := setChainBounds b e (trigs ! j)]) js b e"

text \<open>
  Run mode: the scan \<^verbatim>\<open>for (i = 0; i < size; ++i)\<close> with the running \<^verbatim>\<open>begin\<close>; it
  returns the triggers and the value of \<^verbatim>\<open>begin\<close> when the scan ends.
\<close>

fun runLoop :: "'a::len Trigger list \<Rightarrow> nat list \<Rightarrow> nat \<Rightarrow> 'a Trigger list \<times> nat" where
  "runLoop trigs [] begin = (trigs, begin)"
| "runLoop trigs (i # is) begin =
     (if \<not> getChain (trigs ! i) then
        let end = i + 1;
            trigs = setBoundsLoop trigs [begin..<end] begin end
        in runLoop trigs is end
      else runLoop trigs is begin)"

text \<open>Paired mode, first loop: every trigger becomes a chain of length 1.\<close>

fun singletonLoop :: "'a::len Trigger list \<Rightarrow> nat list \<Rightarrow> 'a Trigger list" where
  "singletonLoop trigs [] = trigs"
| "singletonLoop trigs (i # is) =
     singletonLoop (trigs[i := setChainBounds i (i + 1) (trigs ! i)]) is"

text \<open>Paired mode, second loop: \<^verbatim>\<open>for (i = 0; i < size; i += 2)\<close>.\<close>

function pairLoop :: "'a::len Trigger list \<Rightarrow> nat \<Rightarrow> 'a Trigger list" where
  "pairLoop trigs i =
     (if i < length trigs then
        (if getChain (trigs ! i) \<and> i + 1 < length trigs then
           let trigs = trigs[i := setChainBounds i (i + 2) (trigs ! i)];
               trigs = trigs[i + 1 := setChainBounds i (i + 2) (trigs ! (i + 1))]
           in pairLoop trigs (i + 2)
         else pairLoop trigs (i + 2))
      else trigs)"
  by pat_completeness auto
termination
  by (relation "measure (\<lambda>(trigs, i). length trigs - i)") auto

declare pairLoop.simps [simp del]

definition defineChainBounds :: "'a::len Triggers \<Rightarrow> 'a Triggers" where
  "defineChainBounds ts =
     (if chainPairs ts then
        let trigs = singletonLoop (triggers ts) [0..<length (triggers ts)];
            trigs = pairLoop trigs 0
        in ts\<lparr>triggers := trigs\<rparr>
      else
        case runLoop (triggers ts) [0..<length (triggers ts)] 0 of
          (trigs, begin) \<Rightarrow>
            let end = length trigs
            in ts\<lparr>triggers := setBoundsLoop trigs [begin..<end] begin end\<rparr>)"

text \<open>
  The constructor \<^verbatim>\<open>Triggers(unsigned count)\<close>: \<open>count\<close> default-constructed triggers,
  each one a chain of its own. The initial value of \<^verbatim>\<open>chainPairs_\<close> is set in the header;
  it is false here, run mode being the default of the spec.
\<close>

definition newTriggers :: "'a::len TriggerOps \<Rightarrow> 32 word \<Rightarrow> 'a Triggers" where
  "newTriggers ops count =
     \<lparr>triggers = singletonLoop (replicate (unat count) (trigDefault ops)) [0..<unat count],
      chainPairs = False\<rparr>"

subsection \<open>Register access\<close>

text \<open>
  The index of a trigger is a \<^verbatim>\<open>URV\<close>; \<^verbatim>\<open>trigger >= triggers_.size()\<close> compares it
  with the size as unsigned numbers. A read receives the caller's \<^verbatim>\<open>value\<close> and returns
  it with the result; the bank is returned as the call leaves it.
\<close>

definition readData1 ::
  "'a::len TriggerOps \<Rightarrow> 'a Triggers \<Rightarrow> 'a word \<Rightarrow> 'a word \<Rightarrow> bool \<times> 'a word \<times> 'a Triggers" where
  "readData1 ops ts trigger val =
     (if unat trigger \<ge> length (triggers ts) then (False, val, ts)
      else (True, trigReadData1 ops (triggers ts ! unat trigger), ts))"

definition readData2 ::
  "'a::len TriggerOps \<Rightarrow> 'a Triggers \<Rightarrow> 'a word \<Rightarrow> 'a word \<Rightarrow> bool \<times> 'a word \<times> 'a Triggers" where
  "readData2 ops ts trigger val =
     (if unat trigger \<ge> length (triggers ts) then (False, val, ts)
      else (True, trigReadData2 ops (triggers ts ! unat trigger), ts))"

definition readData3 ::
  "'a::len TriggerOps \<Rightarrow> 'a Triggers \<Rightarrow> 'a word \<Rightarrow> 'a word \<Rightarrow> bool \<times> 'a word \<times> 'a Triggers" where
  "readData3 ops ts trigger val =
     (if unat trigger \<ge> length (triggers ts) then (False, val, ts)
      else (True, trigReadData3 ops (triggers ts ! unat trigger), ts))"

text \<open>
  \<^verbatim>\<open>Triggers::writeData1\<close>. \<^verbatim>\<open>trig\<close> is a reference into the vector: what the trigger's
  own \<^verbatim>\<open>writeData1\<close> does to it stays in the bank also when that write returns false.
\<close>

definition writeData1 ::
  "'a::len TriggerOps \<Rightarrow> 'a Triggers \<Rightarrow> 'a word \<Rightarrow> bool \<Rightarrow> 'a word \<Rightarrow> bool \<times> 'a Triggers" where
  "writeData1 ops ts trigIx debugMode val =
     (if unat trigIx \<ge> length (triggers ts) then (False, ts)
      else
        let trig = triggers ts ! unat trigIx;
            prevChain = getChain trig
        in case trigWriteData1 ops debugMode val trig of
             (ok, trig) \<Rightarrow>
               let ts = ts\<lparr>triggers := (triggers ts)[unat trigIx := trig]\<rparr> in
               if \<not> ok then (False, ts)
               else
                 let newChain = getChain trig in
                 if prevChain \<noteq> newChain then (True, defineChainBounds ts)
                 else (True, ts))"

definition writeData2 ::
  "'a::len TriggerOps \<Rightarrow> 'a Triggers \<Rightarrow> 'a word \<Rightarrow> bool \<Rightarrow> 'a word \<Rightarrow> bool \<times> 'a Triggers" where
  "writeData2 ops ts trigger debugMode val =
     (if unat trigger \<ge> length (triggers ts) then (False, ts)
      else
        case trigWriteData2 ops debugMode val (triggers ts ! unat trigger) of
          (ok, trig) \<Rightarrow> (ok, ts\<lparr>triggers := (triggers ts)[unat trigger := trig]\<rparr>))"

definition writeData3 ::
  "'a::len TriggerOps \<Rightarrow> 'a Triggers \<Rightarrow> 'a word \<Rightarrow> bool \<Rightarrow> 'a word \<Rightarrow> bool \<times> 'a Triggers" where
  "writeData3 ops ts trigger debugMode val =
     (if unat trigger \<ge> length (triggers ts) then (False, ts)
      else (False, ts))"

text \<open>The two overloads of \<^verbatim>\<open>Triggers::peek\<close>: three registers, and registers with masks.\<close>

definition peek ::
  "'a::len TriggerOps \<Rightarrow> 'a Triggers \<Rightarrow> 'a word \<Rightarrow> 'a regs3 \<Rightarrow> bool \<times> 'a regs3 \<times> 'a Triggers" where
  "peek ops ts trigger outs =
     (if unat trigger \<ge> length (triggers ts) then (False, outs, ts)
      else
        case trigPeek ops (triggers ts ! unat trigger) outs of
          (ok, outs) \<Rightarrow> (ok, outs, ts))"

definition peekMasks ::
  "'a::len TriggerOps \<Rightarrow> 'a Triggers \<Rightarrow> 'a word \<Rightarrow> 'a regs3 \<times> 'a regs3 \<times> 'a regs3
     \<Rightarrow> bool \<times> ('a regs3 \<times> 'a regs3 \<times> 'a regs3) \<times> 'a Triggers" where
  "peekMasks ops ts trigger outs =
     (if unat trigger \<ge> length (triggers ts) then (False, outs, ts)
      else
        let trig = triggers ts ! unat trigger in
        case trigPeekMasks ops trig outs of
          (ok, outs) \<Rightarrow> (ok, outs, ts))"

definition poke ::
  "'a::len TriggerOps \<Rightarrow> 'a Triggers \<Rightarrow> 'a word \<Rightarrow> 'a word \<Rightarrow> 'a word \<Rightarrow> 'a word
     \<Rightarrow> bool \<times> 'a Triggers" where
  "poke ops ts trigger v1 v2 v3 =
     (if unat trigger \<ge> length (triggers ts) then (False, ts)
      else
        let trig = triggers ts ! unat trigger;
            trig = trigPokeData1 ops v1 trig;
            trig = trigPokeData2 ops v2 trig;
            trig = trigPokeData3 ops v3 trig
        in (True, ts\<lparr>triggers := (triggers ts)[unat trigger := trig]\<rparr>))"

definition pokeData1 ::
  "'a::len TriggerOps \<Rightarrow> 'a Triggers \<Rightarrow> 'a word \<Rightarrow> 'a word \<Rightarrow> bool \<times> 'a Triggers" where
  "pokeData1 ops ts trigger val =
     (if unat trigger \<ge> length (triggers ts) then (False, ts)
      else
        let trig = triggers ts ! unat trigger;
            prevChain = getChain trig;
            trig = trigPokeData1 ops val trig;
            ts = ts\<lparr>triggers := (triggers ts)[unat trigger := trig]\<rparr>;
            newChain = getChain trig
        in if prevChain \<noteq> newChain then (True, defineChainBounds ts)
           else (True, ts))"

definition pokeData2 ::
  "'a::len TriggerOps \<Rightarrow> 'a Triggers \<Rightarrow> 'a word \<Rightarrow> 'a word \<Rightarrow> bool \<times> 'a Triggers" where
  "pokeData2 ops ts trigger val =
     (if unat trigger \<ge> length (triggers ts) then (False, ts)
      else
        let trig = triggers ts ! unat trigger;
            trig = trigPokeData2 ops val trig
        in (True, ts\<lparr>triggers := (triggers ts)[unat trigger := trig]\<rparr>))"

definition pokeData3 ::
  "'a::len TriggerOps \<Rightarrow> 'a Triggers \<Rightarrow> 'a word \<Rightarrow> 'a word \<Rightarrow> bool \<times> 'a Triggers" where
  "pokeData3 ops ts trigger val =
     (if unat trigger \<ge> length (triggers ts) then (False, ts)
      else
        let trig = triggers ts ! unat trigger;
            trig = trigPokeData3 ops val trig
        in (True, ts\<lparr>triggers := (triggers ts)[unat trigger := trig]\<rparr>))"

subsection \<open>Configuration and reset\<close>

text \<open>
  \<^verbatim>\<open>std::vector::resize(n)\<close>: the first \<open>n\<close> elements are kept, and default-constructed
  elements are appended while the vector is shorter than \<open>n\<close>.
\<close>

definition resize :: "'a list \<Rightarrow> nat \<Rightarrow> 'a \<Rightarrow> 'a list" where
  "resize xs n dflt = take n xs @ replicate (n - length xs) dflt"

text \<open>
  \<^verbatim>\<open>Triggers::config\<close>. The index is an \<^verbatim>\<open>unsigned\<close> (32 bits), and \<^verbatim>\<open>trigger + 1\<close> is
  computed in that type. The first \<^verbatim>\<open>triggers_.at(trigger)\<close> throws when the index is not
  below the size the vector then has; the later ones see the same size.
\<close>

definition config ::
  "'a::len TriggerOps \<Rightarrow> 'a Triggers \<Rightarrow> 32 word \<Rightarrow> 'a regs3 \<Rightarrow> 'a regs3 \<Rightarrow> 'a regs3
     \<Rightarrow> error + (bool \<times> 'a Triggers)" where
  "config ops ts trigger resets wms pms =
     (case (resets, wms, pms) of
        ((reset1, reset2, reset3), (wm1, wm2, wm3), (pm1, pm2, pm3)) \<Rightarrow>
          let trigs = (if unat trigger \<le> length (triggers ts)
                       then resize (triggers ts) (unat (trigger + 1)) (trigDefault ops)
                       else triggers ts)
          in if unat trigger \<ge> length trigs then Inl OutOfRange
             else
               let trig = trigs ! unat trigger;
                   trig = trigConfigData1 ops reset1 wm1 pm1 trig;
                   trig = trigConfigData2 ops reset2 wm2 pm2 trig;
                   trig = trigConfigData3 ops reset3 wm3 pm3 trig;
                   trig = snd (trigWriteData2 ops True reset2 trig);
                   ts = ts\<lparr>triggers := trigs[unat trigger := trig]\<rparr>
               in Inr (True, defineChainBounds ts))"

definition reset :: "'a::len TriggerOps \<Rightarrow> 'a Triggers \<Rightarrow> 'a Triggers" where
  "reset ops ts = defineChainBounds (ts\<lparr>triggers := map (trigReset ops) (triggers ts)\<rparr>)"

subsection \<open>Chain resolution\<close>

text \<open>
  \<^verbatim>\<open>Triggers::updateChainHitBit\<close>. The argument is a reference to a trigger; its timing
  and its chain bounds are copied into locals before anything is written, so the model
  receives the trigger by value. The two loops run over \<open>[beginChain, endChain)\<close>, and
  \<^verbatim>\<open>triggers_.at(i)\<close> throws for an index beyond the bank.
\<close>

fun chainScan ::
  "'a::len Trigger list \<Rightarrow> TriggerTiming \<Rightarrow> nat list \<Rightarrow> bool \<Rightarrow> bool \<Rightarrow> error + (bool \<times> bool)" where
  "chainScan trigs timing [] chainHit uniformTiming = Inr (chainHit, uniformTiming)"
| "chainScan trigs timing (i # is) chainHit uniformTiming =
     (if i < length trigs then
        let trig = trigs ! i;
            chainHit = (chainHit \<and> getLocalHit trig);
            uniformTiming = (uniformTiming \<and> timing = getTiming trig)
        in chainScan trigs timing is chainHit uniformTiming
      else Inl OutOfRange)"

fun setHitLoop :: "'a::len Trigger list \<Rightarrow> nat list \<Rightarrow> error + 'a Trigger list" where
  "setHitLoop trigs [] = Inr trigs"
| "setHitLoop trigs (i # is) =
     (if i < length trigs then setHitLoop (trigs[i := setHit True (trigs ! i)]) is
      else Inl OutOfRange)"

definition updateChainHitBit ::
  "'a::len Triggers \<Rightarrow> 'a Trigger \<Rightarrow> error + (bool \<times> 'a Triggers)" where
  "updateChainHitBit ts trigger =
     (let timing = getTiming trigger in
      case getChainBounds trigger of
        (beginChain, endChain) \<Rightarrow>
          (case chainScan (triggers ts) timing [beginChain..<endChain] True True of
             Inl e \<Rightarrow> Inl e
           | Inr (chainHit, uniformTiming) \<Rightarrow>
               if \<not> chainHit \<or> \<not> uniformTiming then Inr (False, ts)
               else
                 (case setHitLoop (triggers ts) [beginChain..<endChain] of
                    Inl e \<Rightarrow> Inl e
                  | Inr trigs \<Rightarrow> Inr (True, ts\<lparr>triggers := trigs\<rparr>))))"

subsection \<open>Event hits\<close>

text \<open>
  The four functions \<^verbatim>\<open>ldStAddrTriggerHit\<close>, \<^verbatim>\<open>ldStDataTriggerHit\<close>, \<^verbatim>\<open>instAddrTriggerHit\<close>
  and \<^verbatim>\<open>instOpcodeTriggerHit\<close> are the same loop over the triggers, each with its own match
  method. \<open>hitLoop\<close> is that loop over the indices of the bank, with the match method
  (already applied to the event's arguments) as \<open>matchFn\<close>; \<^verbatim>\<open>trigger\<close> is a reference
  into the vector, so every change to it is a change of the bank.
\<close>

fun hitLoop ::
  "('a::len Trigger \<Rightarrow> bool \<times> 'a Trigger) \<Rightarrow> bool \<Rightarrow> 'a Triggers \<Rightarrow> nat list \<Rightarrow> bool
     \<Rightarrow> error + (bool \<times> 'a Triggers)" where
  "hitLoop matchFn interruptEnabled ts [] anyHit = Inr (anyHit, ts)"
| "hitLoop matchFn interruptEnabled ts (i # is) anyHit =
     (let trigger = triggers ts ! i in
      if \<not> isEnterDebugOnHit trigger \<and> \<not> interruptEnabled
      then hitLoop matchFn interruptEnabled ts is anyHit
      else
        case matchFn trigger of
          (matched, trigger) \<Rightarrow>
            let ts = ts\<lparr>triggers := (triggers ts)[i := trigger]\<rparr> in
            if \<not> matched then hitLoop matchFn interruptEnabled ts is anyHit
            else
              let trigger = setLocalHit True trigger;
                  ts = ts\<lparr>triggers := (triggers ts)[i := trigger]\<rparr>
              in case updateChainHitBit ts trigger of
                   Inl e \<Rightarrow> Inl e
                 | Inr (chainOk, ts) \<Rightarrow>
                     hitLoop matchFn interruptEnabled ts is (if chainOk then True else anyHit))"

definition ldStAddrTriggerHit ::
  "'a::len Triggers \<Rightarrow> 'a word \<Rightarrow> TriggerTiming \<Rightarrow> bool \<Rightarrow> bool \<Rightarrow> error + (bool \<times> 'a Triggers)" where
  "ldStAddrTriggerHit ts address timing isLoad interruptEnabled =
     hitLoop (\<lambda>trigger. matchLdStAddr trigger address timing isLoad) interruptEnabled ts
       [0..<length (triggers ts)] False"

definition ldStDataTriggerHit ::
  "'a::len Triggers \<Rightarrow> 'a word \<Rightarrow> TriggerTiming \<Rightarrow> bool \<Rightarrow> bool \<Rightarrow> error + (bool \<times> 'a Triggers)" where
  "ldStDataTriggerHit ts val timing isLoad interruptEnabled =
     hitLoop (\<lambda>trigger. matchLdStData trigger val timing isLoad) interruptEnabled ts
       [0..<length (triggers ts)] False"

definition instAddrTriggerHit ::
  "'a::len Triggers \<Rightarrow> 'a word \<Rightarrow> TriggerTiming \<Rightarrow> bool \<Rightarrow> error + (bool \<times> 'a Triggers)" where
  "instAddrTriggerHit ts address timing interruptEnabled =
     hitLoop (\<lambda>trigger. matchInstAddr trigger address timing) interruptEnabled ts
       [0..<length (triggers ts)] False"

definition instOpcodeTriggerHit ::
  "'a::len Triggers \<Rightarrow> 'a word \<Rightarrow> TriggerTiming \<Rightarrow> bool \<Rightarrow> error + (bool \<times> 'a Triggers)" where
  "instOpcodeTriggerHit ts opcode timing interruptEnabled =
     hitLoop (\<lambda>trigger. matchInstOpcode trigger opcode timing) interruptEnabled ts
       [0..<length (triggers ts)] False"

text \<open>
  \<^verbatim>\<open>Triggers::icountTriggerHit\<close>: the loop over the triggers; an iteration reads and
  writes the trigger it visits and the local flag \<^verbatim>\<open>hit\<close> only (\<open>anyHit\<close> here and
  in \<open>hitLoop\<close>, since \<open>hit\<close> is a field of the trigger).
\<close>

fun icountLoop ::
  "'a::len TriggerOps \<Rightarrow> bool \<Rightarrow> 'a Trigger list \<Rightarrow> bool \<Rightarrow> bool \<times> 'a Trigger list" where
  "icountLoop ops interruptEnabled [] anyHit = (anyHit, [])"
| "icountLoop ops interruptEnabled (trig # rest) anyHit =
     (if \<not> isEnterDebugOnHit trig \<and> \<not> interruptEnabled then
        (case icountLoop ops interruptEnabled rest anyHit of (h, rest) \<Rightarrow> (h, trig # rest))
      else if isModified trig then
        (case icountLoop ops interruptEnabled rest anyHit of (h, rest) \<Rightarrow> (h, trig # rest))
      else
        case trigInstCountdown ops trig of
          (expired, trig) \<Rightarrow>
            if \<not> expired then
              (case icountLoop ops interruptEnabled rest anyHit of (h, rest) \<Rightarrow> (h, trig # rest))
            else
              let anyHit = True;
                  trig = setHit True trig;
                  trig = setLocalHit True trig
              in (case icountLoop ops interruptEnabled rest anyHit of (h, rest) \<Rightarrow> (h, trig # rest)))"

definition icountTriggerHit ::
  "'a::len TriggerOps \<Rightarrow> 'a Triggers \<Rightarrow> bool \<Rightarrow> bool \<times> 'a Triggers" where
  "icountTriggerHit ops ts interruptEnabled =
     (case icountLoop ops interruptEnabled (triggers ts) False of
        (anyHit, trigs) \<Rightarrow> (anyHit, ts\<lparr>triggers := trigs\<rparr>))"

section \<open>Concrete inputs\<close>

text \<open>
  An instance of the register operations, used only to run the bank on concrete inputs.
  A write or a poke of register 1 takes the chain bit from bit 11 of the value (its place in
  the \<^verbatim>\<open>mcontrol\<close> register of the RISC-V debug specification) and leaves the other
  control fields alone; register 2 and register 3 are overwritten; a configuration installs
  the triple; the countdown of an instruction-count trigger that is not yet zero decrements
  and reports whether it reached zero.
\<close>

definition zeroControl :: Mcontrol where
  "zeroControl =
     \<lparr>mc_type = OtherType, mc_m = False, mc_match = 0, mc_chain = False, mc_timing = Before,
      mc_select = MatchAddress, mc_load = False, mc_store = False, mc_execute = False,
      mc_enterDebug = False\<rparr>"

definition zeroTrigger :: "32 Trigger" where
  "zeroTrigger =
     \<lparr>data1 = zeroControl, data2 = 0, data3 = 0, data2CompareMask = 0,
      resetValue1 = 0, resetValue2 = 0, resetValue3 = 0,
      writeMask1 = 0, writeMask2 = 0, writeMask3 = 0,
      pokeMask1 = 0, pokeMask2 = 0, pokeMask3 = 0,
      chainBegin = 0, chainEnd = 0, hit = False, localHit = False, modified = False,
      countdown = 0\<rparr>"

definition demoOps :: "32 TriggerOps" where
  "demoOps =
     \<lparr>trigReadData1 = (\<lambda>t. 0),
      trigReadData2 = (\<lambda>t. data2 t),
      trigReadData3 = (\<lambda>t. data3 t),
      trigWriteData1 = (\<lambda>debugMode v t.
         (True, t\<lparr>data1 := (data1 t)\<lparr>mc_chain := bit v 11\<rparr>, modified := True\<rparr>)),
      trigWriteData2 = (\<lambda>debugMode v t. (True, t\<lparr>data2 := v, modified := True\<rparr>)),
      trigPokeData1 = (\<lambda>v t. t\<lparr>data1 := (data1 t)\<lparr>mc_chain := bit v 11\<rparr>\<rparr>),
      trigPokeData2 = (\<lambda>v t. t\<lparr>data2 := v\<rparr>),
      trigPokeData3 = (\<lambda>v t. t\<lparr>data3 := v\<rparr>),
      trigConfigData1 = (\<lambda>r w p t. t\<lparr>resetValue1 := r, writeMask1 := w, pokeMask1 := p\<rparr>),
      trigConfigData2 = (\<lambda>r w p t. t\<lparr>resetValue2 := r, writeMask2 := w, pokeMask2 := p\<rparr>),
      trigConfigData3 = (\<lambda>r w p t. t\<lparr>resetValue3 := r, writeMask3 := w, pokeMask3 := p\<rparr>),
      trigPeek = (\<lambda>t outs. (True, (0, data2 t, data3 t))),
      trigPeekMasks = (\<lambda>t outs.
         (True, (0, data2 t, data3 t), (writeMask1 t, writeMask2 t, writeMask3 t),
          (pokeMask1 t, pokeMask2 t, pokeMask3 t))),
      trigInstCountdown = (\<lambda>t.
         if mc_type (data1 t) = Icount \<and> 0 < countdown t
         then (countdown t - 1 = 0, t\<lparr>countdown := countdown t - 1\<rparr>)
         else (False, t)),
      trigReset = (\<lambda>t. t\<lparr>data2 := resetValue2 t, data3 := resetValue3 t\<rparr>),
      trigDefault = zeroTrigger\<rparr>"

text \<open>
  An enabled address trigger on loads, stores and fetches that compares with 5 in mode
  \<open>m\<close>, with chain bit \<open>c\<close>.
\<close>

definition addrTrigger :: "nat \<Rightarrow> bool \<Rightarrow> 32 Trigger" where
  "addrTrigger m c =
     zeroTrigger\<lparr>data1 := zeroControl\<lparr>mc_type := AddrData, mc_m := True, mc_match := m,
                  mc_chain := c, mc_load := True, mc_store := True, mc_execute := True\<rparr>,
                 data2 := 5\<rparr>"

section \<open>Chain groups\<close>

text \<open>
  A run of the run-mode scan, in the words of its description: \<open>[b, e)\<close> is not empty and
  lies in the bank; every trigger of it but the last has its chain bit set; it ends at a
  trigger whose chain bit is not set, or at the end of the bank; and it starts at the
  first trigger, or right after a trigger whose chain bit is not set.
\<close>

definition chainRun :: "'a::len Trigger list \<Rightarrow> nat \<Rightarrow> nat \<Rightarrow> bool" where
  "chainRun trigs b e \<longleftrightarrow>
     b < e \<and> e \<le> length trigs \<and>
     (\<forall>j\<in>set [b..<e - 1]. getChain (trigs ! j)) \<and>
     (e < length trigs \<longrightarrow> \<not> getChain (trigs ! (e - 1))) \<and>
     (0 < b \<longrightarrow> \<not> getChain (trigs ! (b - 1)))"

text \<open>
  Every member of every chain group holds one and the same range: the range of trigger
  \<open>k\<close> contains \<open>k\<close>, lies in the bank, and is the range of each trigger in it.
\<close>

definition chainGroupsUniform :: "'a::len Triggers \<Rightarrow> bool" where
  "chainGroupsUniform ts \<longleftrightarrow>
     (\<forall>k\<in>set [0..<length (triggers ts)].
        case getChainBounds (triggers ts ! k) of
          (b, e) \<Rightarrow> b \<le> k \<and> k < e \<and> e \<le> length (triggers ts) \<and>
                    (\<forall>j\<in>set [b..<e]. getChainBounds (triggers ts ! j) = (b, e)))"

text \<open>Banks for the examples.\<close>

definition chainedPair :: "32 Triggers" where
  "chainedPair =
     \<lparr>triggers = [setChainBounds 0 2 ((addrTrigger 0 True)\<lparr>localHit := True\<rparr>),
                  setChainBounds 0 2 ((addrTrigger 0 False)\<lparr>localHit := True\<rparr>)],
      chainPairs = False\<rparr>"

definition chainBank :: "bool \<Rightarrow> bool list \<Rightarrow> 32 Triggers" where
  "chainBank paired chainBits = \<lparr>triggers = map (addrTrigger 0) chainBits, chainPairs = paired\<rparr>"

definition icountTrigger :: "nat \<Rightarrow> bool \<Rightarrow> 32 Trigger" where
  "icountTrigger n m =
     zeroTrigger\<lparr>data1 := zeroControl\<lparr>mc_type := Icount, mc_m := True, mc_enterDebug := True\<rparr>,
                 modified := m, countdown := n\<rparr>"

section \<open>The effect of an event-hit call\<close>

text \<open>
  What one call of an event-hit function does to a bank \<open>ts\<close>, in terms of the bank before
  the call. \<open>matchFn\<close> is the match method applied to the event's arguments and \<open>ie\<close> the
  caller's \<^verbatim>\<open>interruptEnabled\<close>.

  \<^item> \<open>matchesAt\<close>: trigger \<open>k\<close> passes the interrupt gate (it does not fire on
    interrupts only, or interrupts are enabled) and its match method returns true.
  \<^item> \<open>localHitAfter i k\<close>: \<open>localHit\<close> of trigger \<open>k\<close> once the triggers below \<open>i\<close> have
    been visited.
  \<^item> \<open>resolves j\<close>: trigger \<open>j\<close> matches and, right after its \<open>localHit\<close> is set, every
    member of its chain range has \<open>localHit\<close> set and has its timing.
  \<^item> \<open>hitAfter i k\<close>: \<open>hit\<close> of trigger \<open>k\<close> once the triggers below \<open>i\<close> have been
    visited: it was set before, or \<open>k\<close> lies in the range of a trigger below \<open>i\<close> whose
    chain resolved.
  \<^item> \<open>bankAfter i\<close>: the bank once the triggers below \<open>i\<close> have been visited.
  \<^item> \<open>anyResolves\<close>: the chain of at least one trigger resolved during the call.
  \<^item> \<open>observer\<close>: a match method that leaves the trigger as it is and does not look at
    the two hit flags.
\<close>

definition matchesAt :: "('a::len Trigger \<Rightarrow> bool \<times> 'a Trigger) \<Rightarrow> bool \<Rightarrow> 'a Triggers \<Rightarrow> nat \<Rightarrow> bool" where
  "matchesAt matchFn ie ts k \<longleftrightarrow>
     (\<not> firesOnInterruptOnly (triggers ts ! k) \<or> ie) \<and> fst (matchFn (triggers ts ! k))"

definition localHitAfter ::
  "('a::len Trigger \<Rightarrow> bool \<times> 'a Trigger) \<Rightarrow> bool \<Rightarrow> 'a Triggers \<Rightarrow> nat \<Rightarrow> nat \<Rightarrow> bool" where
  "localHitAfter matchFn ie ts i k \<longleftrightarrow>
     localHit (triggers ts ! k) \<or> (k < i \<and> matchesAt matchFn ie ts k)"

definition resolves ::
  "('a::len Trigger \<Rightarrow> bool \<times> 'a Trigger) \<Rightarrow> bool \<Rightarrow> 'a Triggers \<Rightarrow> nat \<Rightarrow> bool" where
  "resolves matchFn ie ts j \<longleftrightarrow>
     matchesAt matchFn ie ts j \<and>
     (\<forall>k\<in>set [chainBegin (triggers ts ! j)..<chainEnd (triggers ts ! j)].
        localHitAfter matchFn ie ts (j + 1) k \<and>
        getTiming (triggers ts ! k) = getTiming (triggers ts ! j))"

definition hitAfter ::
  "('a::len Trigger \<Rightarrow> bool \<times> 'a Trigger) \<Rightarrow> bool \<Rightarrow> 'a Triggers \<Rightarrow> nat \<Rightarrow> nat \<Rightarrow> bool" where
  "hitAfter matchFn ie ts i k \<longleftrightarrow>
     hit (triggers ts ! k) \<or>
     (\<exists>j\<in>set [0..<i]. resolves matchFn ie ts j \<and>
        chainBegin (triggers ts ! j) \<le> k \<and> k < chainEnd (triggers ts ! j))"

definition bankAfter ::
  "('a::len Trigger \<Rightarrow> bool \<times> 'a Trigger) \<Rightarrow> bool \<Rightarrow> 'a Triggers \<Rightarrow> nat \<Rightarrow> 'a Triggers" where
  "bankAfter matchFn ie ts i =
     ts\<lparr>triggers :=
          map (\<lambda>k. (triggers ts ! k)\<lparr>localHit := localHitAfter matchFn ie ts i k,
                                      hit := hitAfter matchFn ie ts i k\<rparr>)
            [0..<length (triggers ts)]\<rparr>"

definition anyResolves ::
  "('a::len Trigger \<Rightarrow> bool \<times> 'a Trigger) \<Rightarrow> bool \<Rightarrow> 'a Triggers \<Rightarrow> bool" where
  "anyResolves matchFn ie ts \<longleftrightarrow>
     (\<exists>j\<in>set [0..<length (triggers ts)]. resolves matchFn ie ts j)"

definition observer :: "('a::len Trigger \<Rightarrow> bool \<times> 'a Trigger) \<Rightarrow> bool" where
  "observer matchFn \<longleftrightarrow>
     (\<forall>t. snd (matchFn t) = t) \<and>
     (\<forall>t l h. fst (matchFn (t\<lparr>localHit := l, hit := h\<rparr>)) = fst (matchFn t))"

text \<open>A bank of one address trigger, a chain of its own, with policy bit \<open>d\<close>.\<close>

definition singleBank :: "bool \<Rightarrow> 32 Triggers" where
  "singleBank d =
     \<lparr>triggers = [setChainBounds 0 1
                   ((addrTrigger 0 False)\<lparr>data1 := (data1 (addrTrigger 0 False))\<lparr>mc_enterDebug := d\<rparr>\<rparr>)],
      chainPairs = False\<rparr>"

section \<open>Properties of the match methods\<close>

lemma push_bit_eq_word_iff:
  fixes x y :: "'a::len word"
  shows "(push_bit h x = push_bit h y) =
         (take_bit (LENGTH('a) - h) x = take_bit (LENGTH('a) - h) y)"
proof
  assume a: "push_bit h x = push_bit h y"
  show "take_bit (LENGTH('a) - h) x = take_bit (LENGTH('a) - h) y"
  proof (rule bit_eqI)
    fix n
    have "bit (push_bit h x) (n + h) = bit (push_bit h y) (n + h)" using a by simp
    then show "bit (take_bit (LENGTH('a) - h) x) n = bit (take_bit (LENGTH('a) - h) y) n"
      by (auto simp: bit_simps)
  qed
next
  assume a: "take_bit (LENGTH('a) - h) x = take_bit (LENGTH('a) - h) y"
  show "push_bit h x = push_bit h y"
  proof (rule bit_eqI)
    fix n
    have "bit (take_bit (LENGTH('a) - h) x) (n - h) = bit (take_bit (LENGTH('a) - h) y) (n - h)"
      using a by simp
    then show "bit (push_bit h x) n = bit (push_bit h y) n"
      by (auto simp: bit_simps)
  qed
qed

lemma halfBitCount32: "halfBitCount (w :: 32 word) = 16"
  by (simp add: halfBitCount_def)

lemma doMatch_snd: "snd (doMatch t item) = t"
  by (simp add: doMatch_def Let_def split: option.split Match.split)

lemma matchLdStAddr_snd: "snd (matchLdStAddr t address timing isLoad) = t"
  by (simp add: matchLdStAddr_def Let_def doMatch_snd)

lemma matchLdStData_snd: "snd (matchLdStData t val timing isLoad) = t"
  by (simp add: matchLdStData_def Let_def doMatch_snd)

lemma matchInstAddr_snd: "snd (matchInstAddr t address timing) = t"
  by (simp add: matchInstAddr_def Let_def doMatch_snd)

lemma matchInstOpcode_snd: "snd (matchInstOpcode t opcode timing) = t"
  by (simp add: matchInstOpcode_def Let_def doMatch_snd)

text \<open>
  Claim C8. The comparator \<^verbatim>\<open>doMatch\<close> (the spec's \<open>compare\<close>) returns: equality with
  the compare value under Equal; equality of the two values under the compare mask under
  Masked; the unsigned comparisons \<open>item \<ge> compareValue\<close> and \<open>item < compareValue\<close> under
  GE and LT; under MaskHighEqualLow at 32 bits, whether the low half of \<open>item\<close> masked
  with the high half of the compare value equals the low half of the compare value (with
  compare value \<open>0xAAAA5555\<close> the mask is \<open>0xAAAA\<close>); and false for a mode number that is no
  enumerator.
\<close>

theorem doMatch_modes:
  fixes t :: "'a::len Trigger" and t32 :: "32 Trigger"
  shows "(decodeMatch (mc_match (data1 t)) = Some Equal \<longrightarrow>
            fst (doMatch t item) = (item = data2 t)) \<and>
         (decodeMatch (mc_match (data1 t)) = Some Masked \<longrightarrow>
            fst (doMatch t item) =
              (item AND data2CompareMask t = data2 t AND data2CompareMask t)) \<and>
         (decodeMatch (mc_match (data1 t)) = Some GE \<longrightarrow>
            fst (doMatch t item) = (unat item \<ge> unat (data2 t))) \<and>
         (decodeMatch (mc_match (data1 t)) = Some LT \<longrightarrow>
            fst (doMatch t item) = (unat item < unat (data2 t))) \<and>
         (decodeMatch (mc_match (data1 t32)) = Some MaskHighEqualLow \<longrightarrow>
            fst (doMatch t32 item32) =
              (take_bit 16 (item32 AND drop_bit 16 (data2 t32)) = take_bit 16 (data2 t32))) \<and>
         (decodeMatch (mc_match (data1 t32)) = Some MaskHighEqualLow \<longrightarrow>
          data2 t32 = 0xAAAA5555 \<longrightarrow>
            fst (doMatch t32 item32) = (take_bit 16 (item32 AND 0xAAAA) = 0x5555)) \<and>
         (6 \<le> mc_match (data1 t) \<longrightarrow> \<not> fst (doMatch t item))"
proof -
  have c1: "decodeMatch (mc_match (data1 t)) = Some Equal \<longrightarrow>
            fst (doMatch t item) = (item = data2 t)"
    by (simp add: doMatch_def)
  have c2: "decodeMatch (mc_match (data1 t)) = Some Masked \<longrightarrow>
            fst (doMatch t item) =
              (item AND data2CompareMask t = data2 t AND data2CompareMask t)"
    by (simp add: doMatch_def)
  have c3: "decodeMatch (mc_match (data1 t)) = Some GE \<longrightarrow>
            fst (doMatch t item) = (unat item \<ge> unat (data2 t))"
    by (simp add: doMatch_def word_le_nat_alt)
  have c4: "decodeMatch (mc_match (data1 t)) = Some LT \<longrightarrow>
            fst (doMatch t item) = (unat item < unat (data2 t))"
    by (simp add: doMatch_def word_less_nat_alt)
  have c5: "decodeMatch (mc_match (data1 t32)) = Some MaskHighEqualLow \<longrightarrow>
            fst (doMatch t32 item32) =
              (take_bit 16 (item32 AND drop_bit 16 (data2 t32)) = take_bit 16 (data2 t32))"
    by (simp add: doMatch_def halfBitCount32 push_bit_eq_word_iff
             del: push_bit_and take_bit_and)
  have ex: "drop_bit 16 (0xAAAA5555 :: 32 word) = 0xAAAA"
           "take_bit 16 (0xAAAA5555 :: 32 word) = 0x5555"
    by simp_all
  have c6: "decodeMatch (mc_match (data1 t32)) = Some MaskHighEqualLow \<longrightarrow>
            data2 t32 = 0xAAAA5555 \<longrightarrow>
            fst (doMatch t32 item32) = (take_bit 16 (item32 AND 0xAAAA) = 0x5555)"
  proof (intro impI)
    assume m: "decodeMatch (mc_match (data1 t32)) = Some MaskHighEqualLow"
      and d: "data2 t32 = 0xAAAA5555"
    from c5 m have "fst (doMatch t32 item32) =
              (take_bit 16 (item32 AND drop_bit 16 (data2 t32)) = take_bit 16 (data2 t32))"
      by blast
    then show "fst (doMatch t32 item32) = (take_bit 16 (item32 AND 0xAAAA) = 0x5555)"
      unfolding d ex .
  qed
  have c7: "6 \<le> mc_match (data1 t) \<longrightarrow> \<not> fst (doMatch t item)"
    by (simp add: doMatch_def decodeMatch_def)
  from c1 c2 c3 c4 c5 c6 c7 show ?thesis by (intro conjI)
qed

text \<open>
  The comparator on the values of the spec: Equal(5,5), GE(7,5) and LT(3,5) match, a masked
  comparison under the zero mask matches, MaskHighEqualLow with compare value
  \<open>0xAAAA5555\<close> looks at \<open>item AND 0xAAAA\<close>, and mode number 9 matches nothing.
\<close>

theorem doMatch_modes_witness:
  "fst (doMatch (addrTrigger 0 False) 5) \<and>
   fst (doMatch (addrTrigger 1 False) 77) \<and>
   fst (doMatch (addrTrigger 2 False) 7) \<and>
   fst (doMatch (addrTrigger 3 False) 3) \<and>
   \<not> fst (doMatch ((addrTrigger 4 False)\<lparr>data2 := 0xAAAA5555\<rparr>) 0x12345555) \<and>
   \<not> fst (doMatch (addrTrigger 9 False) 5)"
  using doMatch_modes [of "addrTrigger 0 False" 5 "(addrTrigger 4 False)\<lparr>data2 := 0xAAAA5555\<rparr>" "0x12345555"]
        doMatch_modes [of "addrTrigger 1 False" 77 "(addrTrigger 4 False)\<lparr>data2 := 0xAAAA5555\<rparr>" "0x12345555"]
        doMatch_modes [of "addrTrigger 2 False" 7 "(addrTrigger 4 False)\<lparr>data2 := 0xAAAA5555\<rparr>" "0x12345555"]
        doMatch_modes [of "addrTrigger 3 False" 3 "(addrTrigger 4 False)\<lparr>data2 := 0xAAAA5555\<rparr>" "0x12345555"]
        doMatch_modes [of "addrTrigger 9 False" 5 "(addrTrigger 4 False)\<lparr>data2 := 0xAAAA5555\<rparr>" "0x12345555"]
  by (simp add: addrTrigger_def zeroTrigger_def zeroControl_def decodeMatch_def)

text \<open>
  Claim C10. The match methods \<^verbatim>\<open>matchLdStAddr\<close>, \<^verbatim>\<open>matchLdStData\<close>, \<^verbatim>\<open>matchInstAddr\<close>,
  \<^verbatim>\<open>matchInstOpcode\<close> and \<^verbatim>\<open>doMatch\<close> only observe: the trigger they leave behind is the
  trigger they were called on, with every field as it was, and a bank whose trigger \<open>i\<close>
  was asked is the same bank afterwards.
\<close>

theorem match_methods_observe_only:
  "snd (matchLdStAddr t item timing isLoad) = t \<and>
   snd (matchLdStData t item timing isLoad) = t \<and>
   snd (matchInstAddr t item timing) = t \<and>
   snd (matchInstOpcode t item timing) = t \<and>
   snd (doMatch t item) = t \<and>
   ts\<lparr>triggers := (triggers ts)[i := snd (matchLdStAddr (triggers ts ! i) item timing isLoad)]\<rparr> = ts \<and>
   ts\<lparr>triggers := (triggers ts)[i := snd (matchLdStData (triggers ts ! i) item timing isLoad)]\<rparr> = ts \<and>
   ts\<lparr>triggers := (triggers ts)[i := snd (matchInstAddr (triggers ts ! i) item timing)]\<rparr> = ts \<and>
   ts\<lparr>triggers := (triggers ts)[i := snd (matchInstOpcode (triggers ts ! i) item timing)]\<rparr> = ts \<and>
   ts\<lparr>triggers := (triggers ts)[i := snd (doMatch (triggers ts ! i) item)]\<rparr> = ts"
  by (simp add: matchLdStAddr_snd matchLdStData_snd matchInstAddr_snd matchInstOpcode_snd
        doMatch_snd)

section \<open>Properties of the chain bounds\<close>

lemma setChainBounds_twice [simp]:
  "setChainBounds b e (setChainBounds b' e' t) = setChainBounds b e t"
  by (simp add: setChainBounds_def)

lemma getChain_setChainBounds [simp]: "getChain (setChainBounds b e t) = getChain t"
  by (simp add: getChain_def setChainBounds_def)

lemma getChainBounds_setChainBounds [simp]: "getChainBounds (setChainBounds b e t) = (b, e)"
  by (simp add: getChainBounds_def setChainBounds_def)

lemma setBoundsLoop_length [simp]: "length (setBoundsLoop trigs js b e) = length trigs"
  by (induction js arbitrary: trigs) auto

lemma nth_update_if:
  "k < length xs \<Longrightarrow> (xs[a := v]) ! k = (if a = k then v else xs ! k)"
  by (cases "a = k") auto

lemma setBoundsLoop_nth:
  "k < length trigs \<Longrightarrow>
   setBoundsLoop trigs js b e ! k =
     (if k \<in> set js then setChainBounds b e (trigs ! k) else trigs ! k)"
  by (induction js arbitrary: trigs) (auto simp: nth_update_if)

lemma chainRun_unique:
  assumes "chainRun trigs b e" "chainRun trigs b' e'" "b \<le> j" "j < e" "b' \<le> j" "j < e'"
  shows "b = b' \<and> e = e'"
proof -
  have e: "e = e'"
  proof (rule ccontr)
    assume ne: "e \<noteq> e'"
    show False
    proof (cases "e < e'")
      case True
      then have "e < length trigs" using assms(2) by (simp add: chainRun_def)
      then have "\<not> getChain (trigs ! (e - 1))" using assms(1) by (simp add: chainRun_def)
      moreover have "e - 1 \<in> set [b'..<e' - 1]" using True assms by auto
      ultimately show False using assms(2) unfolding chainRun_def by blast
    next
      case False
      then have lt: "e' < e" using ne by simp
      then have "e' < length trigs" using assms(1) by (simp add: chainRun_def)
      then have "\<not> getChain (trigs ! (e' - 1))" using assms(2) by (simp add: chainRun_def)
      moreover have "e' - 1 \<in> set [b..<e - 1]" using lt assms by auto
      ultimately show False using assms(1) unfolding chainRun_def by blast
    qed
  qed
  have b: "b = b'"
  proof (rule ccontr)
    assume ne: "b \<noteq> b'"
    show False
    proof (cases "b < b'")
      case True
      then have "\<not> getChain (trigs ! (b' - 1))" using assms(2) by (simp add: chainRun_def)
      moreover have "b' - 1 \<in> set [b..<e - 1]" using True assms by auto
      ultimately show False using assms(1) unfolding chainRun_def by blast
    next
      case False
      then have lt: "b' < b" using ne by simp
      then have "\<not> getChain (trigs ! (b - 1))" using assms(1) by (simp add: chainRun_def)
      moreover have "b - 1 \<in> set [b'..<e' - 1]" using lt assms by auto
      ultimately show False using assms(2) unfolding chainRun_def by blast
    qed
  qed
  from b e show ?thesis by simp
qed

lemma chainRun_cong:
  assumes "length t1 = length t2" "\<forall>k<length t2. getChain (t1 ! k) = getChain (t2 ! k)"
  shows "chainRun t1 b e = chainRun t2 b e"
proof (cases "b < e \<and> e \<le> length t2")
  case True
  then have "\<forall>j\<in>set [b..<e - 1]. getChain (t1 ! j) = getChain (t2 ! j)"
    and "e < length t2 \<longrightarrow> getChain (t1 ! (e - 1)) = getChain (t2 ! (e - 1))"
    and "0 < b \<longrightarrow> getChain (t1 ! (b - 1)) = getChain (t2 ! (b - 1))"
    using assms(2) by auto
  then show ?thesis unfolding chainRun_def assms(1) by auto
next
  case False
  then show ?thesis by (auto simp: chainRun_def assms(1))
qed

lemma runLoop_inv:
  assumes "is = [i..<length trigs]" "begin \<le> i" "i \<le> length trigs"
    "\<forall>j. begin \<le> j \<and> j < i \<longrightarrow> getChain (trigs ! j)"
    "0 < begin \<longrightarrow> \<not> getChain (trigs ! (begin - 1))"
  shows "\<exists>r b'. runLoop trigs is begin = (r, b') \<and> length r = length trigs \<and>
           begin \<le> b' \<and> b' \<le> length trigs \<and>
           (\<forall>j. b' \<le> j \<and> j < length trigs \<longrightarrow> getChain (trigs ! j)) \<and>
           (0 < b' \<longrightarrow> \<not> getChain (trigs ! (b' - 1))) \<and>
           (\<forall>k<length trigs.
              (k < begin \<or> b' \<le> k \<longrightarrow> r ! k = trigs ! k) \<and>
              (begin \<le> k \<and> k < b' \<longrightarrow>
                 (\<exists>b e. r ! k = setChainBounds b e (trigs ! k) \<and> b \<le> k \<and> k < e \<and>
                        chainRun trigs b e)))"
  using assms
proof (induction "is" arbitrary: i trigs "begin")
  case Nil
  from Nil.prems(1) [symmetric] Nil.prems(3) have i: "i = length trigs" by auto
  have "runLoop trigs [] begin = (trigs, begin)" by simp
  moreover have "\<forall>k<length trigs.
              (k < begin \<or> begin \<le> k \<longrightarrow> trigs ! k = trigs ! k) \<and>
              (begin \<le> k \<and> k < begin \<longrightarrow>
                 (\<exists>b e. trigs ! k = setChainBounds b e (trigs ! k) \<and> b \<le> k \<and> k < e \<and>
                        chainRun trigs b e))"
  proof (intro allI impI conjI)
    fix k assume "begin \<le> k \<and> k < begin"
    then have False by linarith
    then show "\<exists>b e. trigs ! k = setChainBounds b e (trigs ! k) \<and> b \<le> k \<and> k < e \<and>
                    chainRun trigs b e" ..
  qed simp
  moreover have "\<forall>j. begin \<le> j \<and> j < length trigs \<longrightarrow> getChain (trigs ! j)"
    using Nil.prems(4) i by simp
  moreover have "begin \<le> length trigs" using Nil.prems(2) i by simp
  ultimately show ?case using Nil.prems(5)
    by (intro exI [of _ trigs] exI [of _ "begin"] conjI) simp_all
next
  case (Cons a "is")
  let ?n = "length trigs"
  from Cons.prems(1) [symmetric] have ai: "a = i" and il: "i < ?n" and rest: "is = [Suc i..<?n]"
    by (auto simp: upt_eq_Cons_conv)
  show ?case
  proof (cases "getChain (trigs ! i)")
    case True
    have step: "runLoop trigs (a # is) begin = runLoop trigs is begin"
      using True ai by simp
    have p2: "begin \<le> Suc i" using Cons.prems(2) by simp
    have p3: "Suc i \<le> ?n" using il by simp
    have p4: "\<forall>j. begin \<le> j \<and> j < Suc i \<longrightarrow> getChain (trigs ! j)"
      using Cons.prems(4) True by (auto simp: less_Suc_eq)
    from Cons.IH [OF rest p2 p3 p4 Cons.prems(5)]
    show ?thesis unfolding step .
  next
    case False
    define t1 where "t1 = setBoundsLoop trigs [begin..<i + 1] begin (i + 1)"
    have step: "runLoop trigs (a # is) begin = runLoop t1 is (Suc i)"
      unfolding t1_def using False ai by (simp add: Let_def)
    have len1: "length t1 = ?n" by (simp add: t1_def)
    have nth1: "\<And>k. k < ?n \<Longrightarrow> t1 ! k =
        (if begin \<le> k \<and> k \<le> i then setChainBounds begin (Suc i) (trigs ! k) else trigs ! k)"
      unfolding t1_def by (auto simp: setBoundsLoop_nth simp del: upt_Suc)
    have gc1: "\<And>k. k < ?n \<Longrightarrow> getChain (t1 ! k) = getChain (trigs ! k)"
      by (simp add: nth1)
    have rest1: "is = [Suc i..<length t1]" using rest by (simp add: len1)
    have q2: "Suc i \<le> Suc i" by simp
    have q3: "Suc i \<le> length t1" using il by (simp add: len1)
    have q4: "\<forall>j. Suc i \<le> j \<and> j < Suc i \<longrightarrow> getChain (t1 ! j)" by auto
    have q5: "0 < Suc i \<longrightarrow> \<not> getChain (t1 ! (Suc i - 1))"
      using False il by (simp add: gc1)
    have run: "chainRun trigs begin (Suc i)"
      using Cons.prems(2,4,5) il False by (auto simp: chainRun_def)
    from Cons.IH [OF rest1 q2 q3 q4 q5]
    obtain r b' where
      r1: "runLoop t1 is (Suc i) = (r, b')" and r2: "length r = length t1"
      and r3: "Suc i \<le> b'" and r4: "b' \<le> length t1"
      and r5: "\<forall>j. b' \<le> j \<and> j < length t1 \<longrightarrow> getChain (t1 ! j)"
      and r6: "0 < b' \<longrightarrow> \<not> getChain (t1 ! (b' - 1))"
      and r7: "\<forall>k<length t1. (k < Suc i \<or> b' \<le> k \<longrightarrow> r ! k = t1 ! k) \<and>
              (Suc i \<le> k \<and> k < b' \<longrightarrow>
                 (\<exists>b e. r ! k = setChainBounds b e (t1 ! k) \<and> b \<le> k \<and> k < e \<and>
                        chainRun t1 b e))"
      by (elim exE conjE)
    have cr: "\<And>b e. chainRun t1 b e = chainRun trigs b e"
      by (rule chainRun_cong) (simp_all add: len1 gc1)
    have a2: "length r = ?n" using r2 len1 by simp
    have a3: "begin \<le> b'" using r3 Cons.prems(2) by simp
    have a4: "b' \<le> ?n" using r4 len1 by simp
    have a5: "\<forall>j. b' \<le> j \<and> j < ?n \<longrightarrow> getChain (trigs ! j)"
      using r5 by (simp add: gc1 len1)
    have a6: "0 < b' \<longrightarrow> \<not> getChain (trigs ! (b' - 1))"
      using r6 r3 r4 by (simp add: gc1 len1)
    have a7: "\<forall>k<?n. (k < begin \<or> b' \<le> k \<longrightarrow> r ! k = trigs ! k) \<and>
              (begin \<le> k \<and> k < b' \<longrightarrow>
                 (\<exists>b e. r ! k = setChainBounds b e (trigs ! k) \<and> b \<le> k \<and> k < e \<and>
                        chainRun trigs b e))"
    proof (intro allI impI conjI)
      fix k assume k: "k < ?n" and kk: "k < begin \<or> b' \<le> k"
      have c: "k < Suc i \<or> b' \<le> k" using kk Cons.prems(2) by linarith
      have n: "\<not> (begin \<le> k \<and> k \<le> i)" using kk r3 by linarith
      from r7 [rule_format, unfolded len1, OF k, THEN conjunct1] c
      have "r ! k = t1 ! k" by blast
      moreover have "t1 ! k = trigs ! k" using n by (auto simp: nth1 [OF k])
      ultimately show "r ! k = trigs ! k" by simp
    next
      fix k assume k: "k < ?n" and kr: "begin \<le> k \<and> k < b'"
      show "\<exists>b e. r ! k = setChainBounds b e (trigs ! k) \<and> b \<le> k \<and> k < e \<and> chainRun trigs b e"
      proof (cases "k \<le> i")
        case True
        then have c: "k < Suc i \<or> b' \<le> k" by simp
        from r7 [rule_format, unfolded len1, OF k, THEN conjunct1] c
        have "r ! k = t1 ! k" by blast
        then have "r ! k = setChainBounds begin (Suc i) (trigs ! k)"
          using kr True by (simp add: nth1 [OF k])
        with run True kr show ?thesis
          by (intro exI [of _ "begin"] exI [of _ "Suc i"]) simp
      next
        case False
        then have c: "Suc i \<le> k \<and> k < b'" using kr by simp
        from r7 [rule_format, unfolded len1, OF k, THEN conjunct2] c
        have "\<exists>b e. r ! k = setChainBounds b e (t1 ! k) \<and> b \<le> k \<and> k < e \<and>
                        chainRun t1 b e" by blast
        then obtain b e where be: "r ! k = setChainBounds b e (t1 ! k)" "b \<le> k" "k < e"
            "chainRun t1 b e"
          by (elim exE conjE)
        have "t1 ! k = trigs ! k" using False by (auto simp: nth1 [OF k])
        with be show ?thesis
          by (intro exI [of _ b] exI [of _ e]) (simp add: cr)
      qed
    qed
    show ?thesis unfolding step
      using r1 a2 a3 a4 a5 a6 a7 by (intro exI [of _ r] exI [of _ b'] conjI)
  qed
qed

lemma chainBegin_setChainBounds [simp]: "chainBegin (setChainBounds b e t) = b"
  by (simp add: setChainBounds_def)

lemma chainEnd_setChainBounds [simp]: "chainEnd (setChainBounds b e t) = e"
  by (simp add: setChainBounds_def)

lemma run_result:
  assumes "\<not> chainPairs ts"
  shows "length (triggers (defineChainBounds ts)) = length (triggers ts) \<and>
         (\<forall>k<length (triggers ts). \<exists>b e.
            triggers (defineChainBounds ts) ! k = setChainBounds b e (triggers ts ! k) \<and>
            b \<le> k \<and> k < e \<and> chainRun (triggers ts) b e)"
proof -
  let ?trigs = "triggers ts"
  let ?n = "length ?trigs"
  have "\<exists>r b'. runLoop ?trigs [0..<?n] 0 = (r, b') \<and> length r = ?n \<and>
           0 \<le> b' \<and> b' \<le> ?n \<and>
           (\<forall>j. b' \<le> j \<and> j < ?n \<longrightarrow> getChain (?trigs ! j)) \<and>
           (0 < b' \<longrightarrow> \<not> getChain (?trigs ! (b' - 1))) \<and>
           (\<forall>k<?n.
              (k < 0 \<or> b' \<le> k \<longrightarrow> r ! k = ?trigs ! k) \<and>
              (0 \<le> k \<and> k < b' \<longrightarrow>
                 (\<exists>b e. r ! k = setChainBounds b e (?trigs ! k) \<and> b \<le> k \<and> k < e \<and>
                        chainRun ?trigs b e)))"
    using runLoop_inv [of "[0..<?n]" 0 ?trigs 0] by simp
  then obtain r b' where
    r: "runLoop ?trigs [0..<?n] 0 = (r, b')" "length r = ?n" "b' \<le> ?n"
       "\<forall>j. b' \<le> j \<and> j < ?n \<longrightarrow> getChain (?trigs ! j)"
       "0 < b' \<longrightarrow> \<not> getChain (?trigs ! (b' - 1))"
       "\<forall>k<?n. (k < 0 \<or> b' \<le> k \<longrightarrow> r ! k = ?trigs ! k) \<and>
              (0 \<le> k \<and> k < b' \<longrightarrow>
                 (\<exists>b e. r ! k = setChainBounds b e (?trigs ! k) \<and> b \<le> k \<and> k < e \<and>
                        chainRun ?trigs b e))"
    by (elim exE conjE)
  define res where "res = setBoundsLoop r [b'..<?n] b' ?n"
  have d: "defineChainBounds ts = ts\<lparr>triggers := res\<rparr>"
    using assms r(1,2) by (simp add: defineChainBounds_def res_def Let_def)
  have len: "length res = ?n" by (simp add: res_def r(2))
  have nth: "\<And>k. k < ?n \<Longrightarrow> res ! k = (if b' \<le> k then setChainBounds b' ?n (r ! k) else r ! k)"
    by (simp add: res_def setBoundsLoop_nth r(2))
  have "\<exists>b e. res ! k = setChainBounds b e (?trigs ! k) \<and> b \<le> k \<and> k < e \<and> chainRun ?trigs b e"
    if k: "k < ?n" for k
  proof (cases "b' \<le> k")
    case True
    have run: "chainRun ?trigs b' ?n"
      using True k r(4,5) by (auto simp: chainRun_def)
    have "r ! k = ?trigs ! k"
      using r(6) [rule_format, OF k, THEN conjunct1] True by blast
    then have "res ! k = setChainBounds b' ?n (?trigs ! k)"
      using True by (simp add: nth [OF k])
    with run True k show ?thesis
      by (intro exI [of _ b'] exI [of _ ?n]) simp
  next
    case False
    then have "k < b'" by simp
    with r(6) [rule_format, OF k, THEN conjunct2]
    have "\<exists>b e. r ! k = setChainBounds b e (?trigs ! k) \<and> b \<le> k \<and> k < e \<and>
                chainRun ?trigs b e" by blast
    moreover have "res ! k = r ! k" using False by (simp add: nth [OF k])
    ultimately show ?thesis by simp
  qed
  with len show ?thesis unfolding d by simp
qed


lemma run_groups:
  assumes "\<not> chainPairs ts"
  shows "chainPairs (defineChainBounds ts) = chainPairs ts \<and>
         length (triggers (defineChainBounds ts)) = length (triggers ts) \<and>
         (\<forall>k<length (triggers ts). \<exists>b e.
            triggers (defineChainBounds ts) ! k = setChainBounds b e (triggers ts ! k) \<and>
            b \<le> k \<and> k < e \<and> chainRun (triggers ts) b e \<and>
            (\<forall>j. b \<le> j \<and> j < e \<longrightarrow>
                 getChainBounds (triggers (defineChainBounds ts) ! j) = (b, e)))"
proof -
  let ?res = "triggers (defineChainBounds ts)"
  let ?trigs = "triggers ts"
  note rr = run_result [OF assms]
  have cp: "chainPairs (defineChainBounds ts) = chainPairs ts"
    using assms by (simp add: defineChainBounds_def Let_def split: prod.split)
  have "\<exists>b e. ?res ! k = setChainBounds b e (?trigs ! k) \<and> b \<le> k \<and> k < e \<and>
           chainRun ?trigs b e \<and>
           (\<forall>j. b \<le> j \<and> j < e \<longrightarrow> getChainBounds (?res ! j) = (b, e))"
    if k: "k < length ?trigs" for k
  proof -
    from rr k obtain b e where
      be: "?res ! k = setChainBounds b e (?trigs ! k)" "b \<le> k" "k < e" "chainRun ?trigs b e"
      by blast
    have "getChainBounds (?res ! j) = (b, e)" if j: "b \<le> j \<and> j < e" for j
    proof -
      have jn: "j < length ?trigs" using j be(4) by (simp add: chainRun_def)
      with rr obtain b2 e2 where
        be2: "?res ! j = setChainBounds b2 e2 (?trigs ! j)" "b2 \<le> j" "j < e2"
             "chainRun ?trigs b2 e2"
        by blast
      from chainRun_unique [OF be(4) be2(4) _ _ be2(2,3)] j have "b = b2 \<and> e = e2" by simp
      then show ?thesis by (simp add: be2(1))
    qed
    then have "\<forall>j. b \<le> j \<and> j < e \<longrightarrow> getChainBounds (?res ! j) = (b, e)" by simp
    with be show ?thesis
      by (intro exI [of _ b] exI [of _ e] conjI)
  qed
  then have "\<forall>k<length ?trigs. \<exists>b e.
            ?res ! k = setChainBounds b e (?trigs ! k) \<and> b \<le> k \<and> k < e \<and>
            chainRun ?trigs b e \<and>
            (\<forall>j. b \<le> j \<and> j < e \<longrightarrow> getChainBounds (?res ! j) = (b, e))"
    by simp
  with cp rr show ?thesis by (intro conjI) simp_all
qed

lemma singletonLoop_length [simp]: "length (singletonLoop trigs is) = length trigs"
  by (induction "is" arbitrary: trigs) auto

lemma singletonLoop_nth:
  "k < length trigs \<Longrightarrow>
   singletonLoop trigs is ! k =
     (if k \<in> set is then setChainBounds k (k + 1) (trigs ! k) else trigs ! k)"
  by (induction "is" arbitrary: trigs) (auto simp: nth_update_if)

lemma pairLoop_length [simp]: "length (pairLoop trigs i) = length trigs"
proof (induction trigs i rule: pairLoop.induct)
  case (1 trigs i)
  show ?case
    using "1.IH" by (subst pairLoop.simps) (auto simp: Let_def)
qed

lemma pairLoop_nth:
  "k < length trigs \<Longrightarrow>
   pairLoop trigs i ! k =
     (if i \<le> k \<and> even (k - i) \<and> getChain (trigs ! k) \<and> k + 1 < length trigs
      then setChainBounds k (k + 2) (trigs ! k)
      else if i < k \<and> odd (k - i) \<and> getChain (trigs ! (k - 1))
      then setChainBounds (k - 1) (k + 1) (trigs ! k)
      else trigs ! k)"
proof (induction trigs i arbitrary: k rule: pairLoop.induct)
  case (1 trigs i)
  let ?n = "length trigs"
  show ?case
  proof (cases "i < ?n")
    case False
    then have "pairLoop trigs i = trigs" by (subst pairLoop.simps) simp
    with False "1.prems" show ?thesis by simp
  next
    case il: True
    show ?thesis
    proof (cases "getChain (trigs ! i) \<and> i + 1 < ?n")
      case True
      define t2 where "t2 = trigs[i := setChainBounds i (i + 2) (trigs ! i),
                                 i + 1 := setChainBounds i (i + 2) (trigs ! (i + 1))]"
      have step: "pairLoop trigs i = pairLoop t2 (i + 2)"
        using il True by (subst pairLoop.simps) (simp add: Let_def t2_def)
      have len2: "length t2 = ?n" by (simp add: t2_def)
      have nth2: "\<And>j. j < ?n \<Longrightarrow> t2 ! j =
          (if j = i \<or> j = i + 1 then setChainBounds i (i + 2) (trigs ! j) else trigs ! j)"
        by (auto simp: t2_def nth_update_if)
      have gc2: "\<And>j. j < ?n \<Longrightarrow> getChain (t2 ! j) = getChain (trigs ! j)"
        by (simp add: nth2)
      have ih: "pairLoop t2 (i + 2) ! k =
         (if i + 2 \<le> k \<and> even (k - (i + 2)) \<and> getChain (t2 ! k) \<and> k + 1 < length t2
          then setChainBounds k (k + 2) (t2 ! k)
          else if i + 2 < k \<and> odd (k - (i + 2)) \<and> getChain (t2 ! (k - 1))
          then setChainBounds (k - 1) (k + 1) (t2 ! k)
          else t2 ! k)"
        using "1.IH"(1) [OF il True refl, of "t2" k] "1.prems"
        by (simp add: t2_def)
      consider "k < i" | "k = i" | "k = i + 1" | "i + 2 \<le> k" by linarith
      then show ?thesis
      proof cases
        case 1
        then show ?thesis unfolding step ih using "1.prems" by (simp add: nth2)
      next
        case 2
        then show ?thesis unfolding step ih using "1.prems" True by (simp add: nth2)
      next
        case 3
        then show ?thesis unfolding step ih using "1.prems" True by (simp add: nth2)
      next
        case 4
        then have par: "even (k - (i + 2)) = even (k - i)" by auto
        have km: "k - 1 < ?n" using "1.prems" by simp
        show ?thesis unfolding step ih par len2
          using 4 "1.prems" km by (auto simp: nth2 gc2)
      qed
    next
      case False
      have step: "pairLoop trigs i = pairLoop trigs (i + 2)"
        using il False by (subst pairLoop.simps) auto
      have ih: "pairLoop trigs (i + 2) ! k =
         (if i + 2 \<le> k \<and> even (k - (i + 2)) \<and> getChain (trigs ! k) \<and> k + 1 < ?n
          then setChainBounds k (k + 2) (trigs ! k)
          else if i + 2 < k \<and> odd (k - (i + 2)) \<and> getChain (trigs ! (k - 1))
          then setChainBounds (k - 1) (k + 1) (trigs ! k)
          else trigs ! k)"
        using "1.IH"(2) [OF il False, of k] "1.prems" by simp
      consider "k < i" | "k = i" | "k = i + 1" | "i + 2 \<le> k" by linarith
      then show ?thesis
      proof cases
        case 1
        then show ?thesis unfolding step ih by simp
      next
        case 2
        then show ?thesis unfolding step ih using False "1.prems" by auto
      next
        case 3
        then show ?thesis unfolding step ih using False "1.prems" by auto
      next
        case 4
        then have par: "even (k - (i + 2)) = even (k - i)" by auto
        show ?thesis unfolding step ih par using 4 by auto
      qed
    qed
  qed
qed

lemma paired_result:
  assumes "chainPairs ts"
  shows "length (triggers (defineChainBounds ts)) = length (triggers ts)"
    and "k < length (triggers ts) \<Longrightarrow>
         triggers (defineChainBounds ts) ! k =
           (if even k then
              (if getChain (triggers ts ! k) \<and> k + 1 < length (triggers ts)
               then setChainBounds k (k + 2) (triggers ts ! k)
               else setChainBounds k (k + 1) (triggers ts ! k))
            else
              (if getChain (triggers ts ! (k - 1))
               then setChainBounds (k - 1) (k + 1) (triggers ts ! k)
               else setChainBounds k (k + 1) (triggers ts ! k)))"
proof -
  let ?trigs = "triggers ts"
  let ?n = "length ?trigs"
  define s where "s = singletonLoop ?trigs [0..<?n]"
  have d: "defineChainBounds ts = ts\<lparr>triggers := pairLoop s 0\<rparr>"
    using assms by (simp add: defineChainBounds_def Let_def s_def)
  have lens: "length s = ?n" by (simp add: s_def)
  have nths: "\<And>j. j < ?n \<Longrightarrow> s ! j = setChainBounds j (j + 1) (?trigs ! j)"
    by (simp add: s_def singletonLoop_nth)
  show "length (triggers (defineChainBounds ts)) = ?n"
    by (simp add: d lens)
  assume k: "k < ?n"
  have km: "k - 1 < ?n" using k by simp
  have pn: "pairLoop s 0 ! k =
     (if 0 \<le> k \<and> even (k - 0) \<and> getChain (s ! k) \<and> k + 1 < length s
      then setChainBounds k (k + 2) (s ! k)
      else if 0 < k \<and> odd (k - 0) \<and> getChain (s ! (k - 1))
      then setChainBounds (k - 1) (k + 1) (s ! k)
      else s ! k)"
    by (rule pairLoop_nth) (simp add: lens k)
  show "triggers (defineChainBounds ts) ! k =
           (if even k then
              (if getChain (?trigs ! k) \<and> k + 1 < ?n
               then setChainBounds k (k + 2) (?trigs ! k)
               else setChainBounds k (k + 1) (?trigs ! k))
            else
              (if getChain (?trigs ! (k - 1))
               then setChainBounds (k - 1) (k + 1) (?trigs ! k)
               else setChainBounds k (k + 1) (?trigs ! k)))"
  proof (cases "even k")
    case True
    then show ?thesis by (simp add: d pn lens nths [OF k])
  next
    case False
    then have "0 < k" by (cases k) auto
    have gcs: "getChain (s ! (k - 1)) = getChain (?trigs ! (k - 1))"
      unfolding nths [OF km] by simp
    with False \<open>0 < k\<close> show ?thesis by (simp add: d pn lens nths [OF k])
  qed
qed

lemma defineChainBounds_length [simp]:
  "length (triggers (defineChainBounds ts)) = length (triggers ts)"
  using paired_result(1) [of ts] run_result [of ts] by (cases "chainPairs ts") simp_all

lemma defineChainBounds_chainPairs [simp]:
  "chainPairs (defineChainBounds ts) = chainPairs ts"
  by (simp add: defineChainBounds_def Let_def split: prod.split)

lemma paired_groups:
  assumes "chainPairs ts" "k < length (triggers ts)"
  shows "(even k \<and> getChain (triggers ts ! k) \<and> k + 1 < length (triggers ts) \<longrightarrow>
            triggers (defineChainBounds ts) ! k = setChainBounds k (k + 2) (triggers ts ! k) \<and>
            triggers (defineChainBounds ts) ! (k + 1) =
              setChainBounds k (k + 2) (triggers ts ! (k + 1))) \<and>
         (even k \<and> \<not> (getChain (triggers ts ! k) \<and> k + 1 < length (triggers ts)) \<longrightarrow>
            triggers (defineChainBounds ts) ! k = setChainBounds k (k + 1) (triggers ts ! k)) \<and>
         (odd k \<and> \<not> getChain (triggers ts ! (k - 1)) \<longrightarrow>
            triggers (defineChainBounds ts) ! k = setChainBounds k (k + 1) (triggers ts ! k)) \<and>
         (odd k \<longrightarrow> chainEnd (triggers (defineChainBounds ts) ! k) = k + 1) \<and>
         chainBegin (triggers (defineChainBounds ts) ! k) \<le> k \<and>
         k < chainEnd (triggers (defineChainBounds ts) ! k) \<and>
         chainEnd (triggers (defineChainBounds ts) ! k) \<le> length (triggers ts) \<and>
         chainEnd (triggers (defineChainBounds ts) ! k) -
           chainBegin (triggers (defineChainBounds ts) ! k) \<le> 2 \<and>
         (chainEnd (triggers (defineChainBounds ts) ! k) -
            chainBegin (triggers (defineChainBounds ts) ! k) = 2 \<longrightarrow>
            even (chainBegin (triggers (defineChainBounds ts) ! k)) \<and>
            getChain (triggers ts ! chainBegin (triggers (defineChainBounds ts) ! k)))"
proof -
  note pr = paired_result(2) [OF assms(1)]
  let ?r = "triggers (defineChainBounds ts) ! k"
  show ?thesis
  proof (cases "even k")
    case True
    show ?thesis
    proof (cases "getChain (triggers ts ! k) \<and> k + 1 < length (triggers ts)")
      case c: True
      have r1: "triggers (defineChainBounds ts) ! (k + 1) =
              setChainBounds k (k + 2) (triggers ts ! (k + 1))"
        using pr [of "k + 1"] c True by simp
      have r0: "?r = setChainBounds k (k + 2) (triggers ts ! k)"
        using pr [OF assms(2)] c True by simp
      show ?thesis unfolding r0 r1 using True c by simp
    next
      case c: False
      have r0: "?r = setChainBounds k (k + 1) (triggers ts ! k)"
        using pr [OF assms(2)] unfolding if_P [OF True] if_not_P [OF c] .
      show ?thesis unfolding r0 using True c assms(2) by auto
    qed
  next
    case False
    then have k0: "0 < k" by (cases k) auto
    show ?thesis
    proof (cases "getChain (triggers ts ! (k - 1))")
      case c: True
      have r0: "?r = setChainBounds (k - 1) (k + 1) (triggers ts ! k)"
        using pr [OF assms(2)] c False by simp
      show ?thesis unfolding r0 using False c k0 assms(2) by simp
    next
      case c: False
      have r0: "?r = setChainBounds k (k + 1) (triggers ts ! k)"
        using pr [OF assms(2)] c False by simp
      show ?thesis unfolding r0 using False c k0 assms(2) by simp
    qed
  qed
qed

text \<open>
  Claim C5. In run mode the chain bounds follow the runs of the chain bits: the bank keeps
  its size and every trigger \<open>k\<close> keeps all its fields but the range, which becomes the run
  \<open>[b, e)\<close> that contains \<open>k\<close>: all triggers of the run but the last have the chain bit
  set, the run ends at (and includes) the first trigger whose chain bit is not set or is
  closed at the end of the bank, the next run starts right after it, and every member of
  the run gets this same range. Chain bits \<open>[1,1,0,1,0]\<close> give \<open>[0,3)\<close> to triggers 0 to 2
  and \<open>[3,5)\<close> to triggers 3 and 4.
\<close>

theorem defineChainBounds_run:
  assumes "\<not> chainPairs ts"
  shows "chainPairs (defineChainBounds ts) = chainPairs ts \<and>
         length (triggers (defineChainBounds ts)) = length (triggers ts) \<and>
         (\<forall>k<length (triggers ts). \<exists>b e.
            triggers (defineChainBounds ts) ! k = setChainBounds b e (triggers ts ! k) \<and>
            b \<le> k \<and> k < e \<and> chainRun (triggers ts) b e \<and>
            (\<forall>j. b \<le> j \<and> j < e \<longrightarrow>
                 getChainBounds (triggers (defineChainBounds ts) ! j) = (b, e)))"
  using assms by (rule run_groups)

theorem defineChainBounds_run_witness:
  "\<not> chainPairs (chainBank False [True, True, False, True, False]) \<and>
   map getChainBounds
     (triggers (defineChainBounds (chainBank False [True, True, False, True, False]))) =
     [(0, 3), (0, 3), (0, 3), (3, 5), (3, 5)] \<and>
   chainRun (triggers (chainBank False [True, True, False, True, False])) 0 3 \<and>
   chainRun (triggers (chainBank False [True, True, False, True, False])) 3 5"
proof -
  have h: "\<not> chainPairs (chainBank False [True, True, False, True, False])"
    by (simp add: chainBank_def)
  have v: "map getChainBounds
     (triggers (defineChainBounds (chainBank False [True, True, False, True, False]))) =
     [(0, 3), (0, 3), (0, 3), (3, 5), (3, 5)]"
    by code_simp
  have r: "chainRun (triggers (chainBank False [True, True, False, True, False])) 0 3"
    "chainRun (triggers (chainBank False [True, True, False, True, False])) 3 5"
    by code_simp+
  from h v r defineChainBounds_run [OF h] show ?thesis by simp
qed

text \<open>
  Claim C6. In paired mode the bank keeps its size and every trigger keeps all its fields
  but the range. An even trigger \<open>k\<close> whose chain bit is set and that has a successor forms
  the group \<open>[k, k+2)\<close> with it; every other even trigger, and every odd trigger whose
  predecessor does not start a pair, is a group of its own. The group of an odd trigger
  never reaches beyond it, whatever its chain bit. So a group has at most two members,
  and a group of two starts at an even index whose chain bit is set.
\<close>

theorem defineChainBounds_paired:
  assumes "chainPairs ts"
  shows "chainPairs (defineChainBounds ts) = chainPairs ts \<and>
         length (triggers (defineChainBounds ts)) = length (triggers ts) \<and>
         (\<forall>k<length (triggers ts).
           (even k \<and> getChain (triggers ts ! k) \<and> k + 1 < length (triggers ts) \<longrightarrow>
              triggers (defineChainBounds ts) ! k = setChainBounds k (k + 2) (triggers ts ! k) \<and>
              triggers (defineChainBounds ts) ! (k + 1) =
                setChainBounds k (k + 2) (triggers ts ! (k + 1))) \<and>
           (even k \<and> \<not> (getChain (triggers ts ! k) \<and> k + 1 < length (triggers ts)) \<longrightarrow>
              triggers (defineChainBounds ts) ! k = setChainBounds k (k + 1) (triggers ts ! k)) \<and>
           (odd k \<and> \<not> getChain (triggers ts ! (k - 1)) \<longrightarrow>
              triggers (defineChainBounds ts) ! k = setChainBounds k (k + 1) (triggers ts ! k)) \<and>
           (odd k \<longrightarrow> chainEnd (triggers (defineChainBounds ts) ! k) = k + 1) \<and>
           chainBegin (triggers (defineChainBounds ts) ! k) \<le> k \<and>
           k < chainEnd (triggers (defineChainBounds ts) ! k) \<and>
           chainEnd (triggers (defineChainBounds ts) ! k) \<le> length (triggers ts) \<and>
           chainEnd (triggers (defineChainBounds ts) ! k) -
             chainBegin (triggers (defineChainBounds ts) ! k) \<le> 2 \<and>
           (chainEnd (triggers (defineChainBounds ts) ! k) -
              chainBegin (triggers (defineChainBounds ts) ! k) = 2 \<longrightarrow>
              even (chainBegin (triggers (defineChainBounds ts) ! k)) \<and>
              getChain (triggers ts ! chainBegin (triggers (defineChainBounds ts) ! k))))"
    (is "?A \<and> ?B \<and> (\<forall>k<_. ?P k)")
proof -
  have "?P k" if "k < length (triggers ts)" for k
    using paired_groups [OF assms that] .
  then have a: "\<forall>k<length (triggers ts). ?P k" by blast
  have b: "?A" by simp
  have c: "?B" by simp
  from b c a show ?thesis by (intro conjI)
qed

theorem defineChainBounds_paired_witness:
  "chainPairs (chainBank True [True, True, True, False, True]) \<and>
   map getChainBounds
     (triggers (defineChainBounds (chainBank True [True, True, True, False, True]))) =
     [(0, 2), (0, 2), (2, 4), (2, 4), (4, 5)] \<and>
   map getChainBounds
     (triggers (defineChainBounds (chainBank True [False, True, False, True]))) =
     [(0, 1), (1, 2), (2, 3), (3, 4)]"
proof -
  have h: "chainPairs (chainBank True [True, True, True, False, True])"
    by (simp add: chainBank_def)
  have v: "map getChainBounds
     (triggers (defineChainBounds (chainBank True [True, True, True, False, True]))) =
     [(0, 2), (0, 2), (2, 4), (2, 4), (4, 5)]"
    "map getChainBounds
     (triggers (defineChainBounds (chainBank True [False, True, False, True]))) =
     [(0, 1), (1, 2), (2, 3), (3, 4)]"
    by code_simp+
  from h v defineChainBounds_paired [OF h] show ?thesis by simp
qed

section \<open>Properties of chain resolution\<close>

lemma chainScan_eq:
  "chainScan trigs timing is c u =
     (if \<forall>i\<in>set is. i < length trigs
      then Inr (c \<and> (\<forall>i\<in>set is. getLocalHit (trigs ! i)),
                u \<and> (\<forall>i\<in>set is. timing = getTiming (trigs ! i)))
      else Inl OutOfRange)"
  by (induction "is" arbitrary: c u) (auto simp: Let_def)

lemma setHit_idem: "setHit True (setHit True t) = setHit True t"
  by (simp add: setHit_def)

lemma setHitLoop_error:
  "\<not> (\<forall>i\<in>set is. i < length trigs) \<Longrightarrow> setHitLoop trigs is = Inl OutOfRange"
  by (induction "is" arbitrary: trigs) auto

lemma setHitLoop_ok:
  "\<forall>i\<in>set is. i < length trigs \<Longrightarrow>
   \<exists>r. setHitLoop trigs is = Inr r \<and> length r = length trigs \<and>
       (\<forall>k<length trigs. r ! k = (if k \<in> set is then setHit True (trigs ! k) else trigs ! k))"
proof (induction "is" arbitrary: trigs)
  case Nil
  then show ?case by simp
next
  case (Cons i "is")
  let ?t1 = "trigs[i := setHit True (trigs ! i)]"
  from Cons.prems have il: "i < length trigs" and rest: "\<forall>j\<in>set is. j < length ?t1" by auto
  from Cons.IH [OF rest] obtain r where
    r: "setHitLoop ?t1 is = Inr r" "length r = length ?t1"
       "\<forall>k<length ?t1. r ! k = (if k \<in> set is then setHit True (?t1 ! k) else ?t1 ! k)"
    by blast
  have "\<forall>k<length trigs. r ! k = (if k \<in> set (i # is) then setHit True (trigs ! k) else trigs ! k)"
    using r(3) il by (auto simp: nth_list_update setHit_idem)
  with r il show ?case by simp
qed

lemma updateChainHitBit_cases:
  assumes "chainEnd trigger \<le> length (triggers ts)"
  shows "\<exists>b ts'. updateChainHitBit ts trigger = Inr (b, ts') \<and>
           (b \<longleftrightarrow> (\<forall>k. chainBegin trigger \<le> k \<and> k < chainEnd trigger \<longrightarrow>
                     localHit (triggers ts ! k) \<and>
                     getTiming (triggers ts ! k) = getTiming trigger)) \<and>
           (b \<longrightarrow> chainPairs ts' = chainPairs ts \<and>
                  length (triggers ts') = length (triggers ts) \<and>
                  (\<forall>k<length (triggers ts).
                     triggers ts' ! k =
                       (if chainBegin trigger \<le> k \<and> k < chainEnd trigger
                        then (triggers ts ! k)\<lparr>hit := True\<rparr> else triggers ts ! k))) \<and>
           (\<not> b \<longrightarrow> ts' = ts)"
proof -
  let ?is = "[chainBegin trigger..<chainEnd trigger]"
  have inb: "\<forall>i\<in>set ?is. i < length (triggers ts)" using assms by auto
  from setHitLoop_ok [OF inb] obtain r where
    r: "setHitLoop (triggers ts) ?is = Inr r" "length r = length (triggers ts)"
       "\<forall>k<length (triggers ts). r ! k = (if k \<in> set ?is then setHit True (triggers ts ! k) else triggers ts ! k)"
    by blast
  define B where "B \<longleftrightarrow> (\<forall>k. chainBegin trigger \<le> k \<and> k < chainEnd trigger \<longrightarrow>
                     localHit (triggers ts ! k) \<and>
                     getTiming (triggers ts ! k) = getTiming trigger)"
  have scan: "chainScan (triggers ts) (getTiming trigger) ?is True True =
                Inr (\<forall>i\<in>set ?is. getLocalHit (triggers ts ! i),
                     \<forall>i\<in>set ?is. getTiming trigger = getTiming (triggers ts ! i))"
    using inb by (simp add: chainScan_eq del: set_upt)
  have Beq: "B \<longleftrightarrow> (\<forall>i\<in>set ?is. getLocalHit (triggers ts ! i)) \<and>
                   (\<forall>i\<in>set ?is. getTiming trigger = getTiming (triggers ts ! i))"
    unfolding B_def by (auto simp: getLocalHit_def)
  have r3: "\<forall>k<length (triggers ts). r ! k =
              (if chainBegin trigger \<le> k \<and> k < chainEnd trigger
               then (triggers ts ! k)\<lparr>hit := True\<rparr> else triggers ts ! k)"
    using r(3) by (simp add: setHit_def)
  show ?thesis
  proof (cases B)
    case True
    then have "updateChainHitBit ts trigger = Inr (True, ts\<lparr>triggers := r\<rparr>)"
      using Beq scan r(1) by (simp add: updateChainHitBit_def getChainBounds_def del: set_upt)
    moreover have "chainPairs (ts\<lparr>triggers := r\<rparr>) = chainPairs ts"
      "length (triggers (ts\<lparr>triggers := r\<rparr>)) = length (triggers ts)"
      using r(2) by simp_all
    moreover have "\<forall>k<length (triggers ts). triggers (ts\<lparr>triggers := r\<rparr>) ! k =
              (if chainBegin trigger \<le> k \<and> k < chainEnd trigger
               then (triggers ts ! k)\<lparr>hit := True\<rparr> else triggers ts ! k)"
      using r3 by simp
    ultimately show ?thesis using True unfolding B_def
      by (intro exI[of _ True] exI[of _ "ts\<lparr>triggers := r\<rparr>"]) blast
  next
    case False
    then have "updateChainHitBit ts trigger = Inr (False, ts)"
      using Beq scan by (auto simp add: updateChainHitBit_def getChainBounds_def simp del: set_upt)
    then show ?thesis using False unfolding B_def
      by (intro exI[of _ False] exI[of _ ts]) blast
  qed
qed

lemma updateChainHitBit_throws:
  assumes "chainBegin trigger < chainEnd trigger" "length (triggers ts) < chainEnd trigger"
  shows "updateChainHitBit ts trigger = Inl OutOfRange"
proof -
  have "chainEnd trigger - 1 \<in> set [chainBegin trigger..<chainEnd trigger]"
    using assms(1) by auto
  moreover have "\<not> chainEnd trigger - 1 < length (triggers ts)" using assms(2) by auto
  ultimately have "\<not> (\<forall>i\<in>set [chainBegin trigger..<chainEnd trigger].
                      i < length (triggers ts))"
    by blast
  then have "chainScan (triggers ts) (getTiming trigger)
               [chainBegin trigger..<chainEnd trigger] True True = Inl OutOfRange"
    unfolding chainScan_eq by (rule if_not_P)
  then show ?thesis
    by (simp add: updateChainHitBit_def getChainBounds_def)
qed

text \<open>
  Claim C3. \<^verbatim>\<open>updateChainHitBit\<close> (the spec's \<open>resolveChain\<close>), for a trigger whose chain
  range lies in the bank: it returns true if and only if every member of the range has
  \<open>localHit\<close> set and has the timing of the trigger it was called for; when it returns
  true, \<open>hit\<close> is set on every member of the range and nothing else changes; when it
  returns false, the bank is unchanged.
\<close>

theorem updateChainHitBit_resolves:
  assumes "chainEnd trigger \<le> length (triggers ts)"
  shows "\<exists>b ts'. updateChainHitBit ts trigger = Inr (b, ts') \<and>
           (b \<longleftrightarrow> (\<forall>k. chainBegin trigger \<le> k \<and> k < chainEnd trigger \<longrightarrow>
                     localHit (triggers ts ! k) \<and>
                     getTiming (triggers ts ! k) = getTiming trigger)) \<and>
           (b \<longrightarrow> chainPairs ts' = chainPairs ts \<and>
                  length (triggers ts') = length (triggers ts) \<and>
                  (\<forall>k<length (triggers ts).
                     triggers ts' ! k =
                       (if chainBegin trigger \<le> k \<and> k < chainEnd trigger
                        then (triggers ts ! k)\<lparr>hit := True\<rparr> else triggers ts ! k))) \<and>
           (\<not> b \<longrightarrow> ts' = ts)"
  using assms by (rule updateChainHitBit_cases)

theorem updateChainHitBit_resolves_witness:
  "chainEnd (triggers chainedPair ! 0) \<le> length (triggers chainedPair) \<and>
   updateChainHitBit chainedPair (triggers chainedPair ! 0) =
     Inr (True, chainedPair\<lparr>triggers := map (setHit True) (triggers chainedPair)\<rparr>) \<and>
   updateChainHitBit
     (chainedPair\<lparr>triggers := (triggers chainedPair)[1 := setLocalHit False (triggers chainedPair ! 1)]\<rparr>)
     (triggers chainedPair ! 0) =
     Inr (False,
       chainedPair\<lparr>triggers := (triggers chainedPair)[1 := setLocalHit False (triggers chainedPair ! 1)]\<rparr>)"
proof -
  have h: "chainEnd (triggers chainedPair ! 0) \<le> length (triggers chainedPair)"
    by code_simp
  have v: "updateChainHitBit chainedPair (triggers chainedPair ! 0) =
     Inr (True, chainedPair\<lparr>triggers := map (setHit True) (triggers chainedPair)\<rparr>)"
    by code_simp
  have w: "updateChainHitBit
     (chainedPair\<lparr>triggers := (triggers chainedPair)[1 := setLocalHit False (triggers chainedPair ! 1)]\<rparr>)
     (triggers chainedPair ! 0) =
     Inr (False,
       chainedPair\<lparr>triggers := (triggers chainedPair)[1 := setLocalHit False (triggers chainedPair ! 1)]\<rparr>)"
    by code_simp
  from h v w updateChainHitBit_resolves [OF h] show ?thesis by simp
qed

section \<open>Properties of the instruction-count hit\<close>

lemma icountLoop_fst:
  "fst (icountLoop ops ie xs h) =
     (h \<or> (\<exists>t\<in>set xs. (isEnterDebugOnHit t \<or> ie) \<and> \<not> isModified t \<and>
                          fst (trigInstCountdown ops t)))"
  by (induction xs arbitrary: h) (auto simp: Let_def case_prod_beta)

lemma icountLoop_snd:
  "snd (icountLoop ops ie xs h) =
     map (\<lambda>t. if (\<not> isEnterDebugOnHit t \<and> \<not> ie) \<or> isModified t then t
               else if fst (trigInstCountdown ops t)
                    then setLocalHit True (setHit True (snd (trigInstCountdown ops t)))
                    else snd (trigInstCountdown ops t)) xs"
  by (induction xs arbitrary: h) (auto simp: Let_def case_prod_beta)

lemma icountTriggerHit_cases:
  "chainPairs (snd (icountTriggerHit ops ts ie)) = chainPairs ts \<and>
   length (triggers (snd (icountTriggerHit ops ts ie))) = length (triggers ts) \<and>
   (\<forall>k<length (triggers ts).
      ((\<not> isEnterDebugOnHit (triggers ts ! k) \<and> \<not> ie) \<or> isModified (triggers ts ! k) \<longrightarrow>
         triggers (snd (icountTriggerHit ops ts ie)) ! k = triggers ts ! k) \<and>
      ((isEnterDebugOnHit (triggers ts ! k) \<or> ie) \<and> \<not> isModified (triggers ts ! k) \<and>
       \<not> fst (trigInstCountdown ops (triggers ts ! k)) \<longrightarrow>
         triggers (snd (icountTriggerHit ops ts ie)) ! k =
           snd (trigInstCountdown ops (triggers ts ! k))) \<and>
      ((isEnterDebugOnHit (triggers ts ! k) \<or> ie) \<and> \<not> isModified (triggers ts ! k) \<and>
       fst (trigInstCountdown ops (triggers ts ! k)) \<longrightarrow>
         triggers (snd (icountTriggerHit ops ts ie)) ! k =
           (snd (trigInstCountdown ops (triggers ts ! k)))\<lparr>hit := True, localHit := True\<rparr>)) \<and>
   (fst (icountTriggerHit ops ts ie) \<longleftrightarrow>
      (\<exists>k<length (triggers ts).
         (isEnterDebugOnHit (triggers ts ! k) \<or> ie) \<and> \<not> isModified (triggers ts ! k) \<and>
         fst (trigInstCountdown ops (triggers ts ! k))))"
proof -
  obtain h trigs where l: "icountLoop ops ie (triggers ts) False = (h, trigs)"
    by (cases "icountLoop ops ie (triggers ts) False")
  have r: "icountTriggerHit ops ts ie = (h, ts\<lparr>triggers := trigs\<rparr>)"
    by (simp add: icountTriggerHit_def l)
  have h: "h = (\<exists>t\<in>set (triggers ts). (isEnterDebugOnHit t \<or> ie) \<and> \<not> isModified t \<and>
                          fst (trigInstCountdown ops t))"
    using icountLoop_fst [of ops ie "triggers ts" False] l by simp
  have t: "trigs = map (\<lambda>t. if (\<not> isEnterDebugOnHit t \<and> \<not> ie) \<or> isModified t then t
               else if fst (trigInstCountdown ops t)
                    then setLocalHit True (setHit True (snd (trigInstCountdown ops t)))
                    else snd (trigInstCountdown ops t)) (triggers ts)"
    using icountLoop_snd [of ops ie "triggers ts" False] l by simp
  have h': "h = (\<exists>k<length (triggers ts).
         (isEnterDebugOnHit (triggers ts ! k) \<or> ie) \<and> \<not> isModified (triggers ts ! k) \<and>
         fst (trigInstCountdown ops (triggers ts ! k)))"
    unfolding h by (metis in_set_conv_nth)
  show ?thesis
    unfolding r using h' by (simp add: t setLocalHit_def setHit_def)
qed

text \<open>
  Claim C7. \<^verbatim>\<open>icountTriggerHit\<close> keeps the size of the bank and treats every trigger on
  its own: a trigger that fails the interrupt gate or was modified by the current
  instruction is left as it is (and does not count as a hit, whatever its countdown would
  do); any other trigger is counted down, and when the countdown expires both \<open>hit\<close> and
  \<open>localHit\<close> are set on that trigger alone. The call returns true if and only if the
  countdown of some trigger that was neither gated nor modified expired.
\<close>

theorem icountTriggerHit_correct:
  "chainPairs (snd (icountTriggerHit ops ts ie)) = chainPairs ts \<and>
   length (triggers (snd (icountTriggerHit ops ts ie))) = length (triggers ts) \<and>
   (\<forall>k<length (triggers ts).
      ((\<not> isEnterDebugOnHit (triggers ts ! k) \<and> \<not> ie) \<or> isModified (triggers ts ! k) \<longrightarrow>
         triggers (snd (icountTriggerHit ops ts ie)) ! k = triggers ts ! k) \<and>
      ((isEnterDebugOnHit (triggers ts ! k) \<or> ie) \<and> \<not> isModified (triggers ts ! k) \<and>
       \<not> fst (trigInstCountdown ops (triggers ts ! k)) \<longrightarrow>
         triggers (snd (icountTriggerHit ops ts ie)) ! k =
           snd (trigInstCountdown ops (triggers ts ! k))) \<and>
      ((isEnterDebugOnHit (triggers ts ! k) \<or> ie) \<and> \<not> isModified (triggers ts ! k) \<and>
       fst (trigInstCountdown ops (triggers ts ! k)) \<longrightarrow>
         triggers (snd (icountTriggerHit ops ts ie)) ! k =
           (snd (trigInstCountdown ops (triggers ts ! k)))\<lparr>hit := True, localHit := True\<rparr>)) \<and>
   (fst (icountTriggerHit ops ts ie) \<longleftrightarrow>
      (\<exists>k<length (triggers ts).
         (isEnterDebugOnHit (triggers ts ! k) \<or> ie) \<and> \<not> isModified (triggers ts ! k) \<and>
         fst (trigInstCountdown ops (triggers ts ! k))))"
  by (rule icountTriggerHit_cases)

theorem icountTriggerHit_correct_witness:
  "icountTriggerHit demoOps
     \<lparr>triggers = [icountTrigger 1 False, icountTrigger 1 True, icountTrigger 2 False],
      chainPairs = False\<rparr> False =
   (True,
    \<lparr>triggers = [(icountTrigger 0 False)\<lparr>hit := True, localHit := True\<rparr>,
                 icountTrigger 1 True, icountTrigger 1 False],
     chainPairs = False\<rparr>) \<and>
   icountTriggerHit demoOps
     \<lparr>triggers = [icountTrigger 1 True, (icountTrigger 1 False)\<lparr>data1 := zeroControl\<lparr>mc_type := Icount\<rparr>\<rparr>],
      chainPairs = False\<rparr> False =
   (False,
     \<lparr>triggers = [icountTrigger 1 True, (icountTrigger 1 False)\<lparr>data1 := zeroControl\<lparr>mc_type := Icount\<rparr>\<rparr>],
      chainPairs = False\<rparr>)"
proof -
  have v: "icountTriggerHit demoOps
     \<lparr>triggers = [icountTrigger 1 False, icountTrigger 1 True, icountTrigger 2 False],
      chainPairs = False\<rparr> False =
   (True,
    \<lparr>triggers = [(icountTrigger 0 False)\<lparr>hit := True, localHit := True\<rparr>,
                 icountTrigger 1 True, icountTrigger 1 False],
     chainPairs = False\<rparr>)"
    by code_simp
  have w: "icountTriggerHit demoOps
     \<lparr>triggers = [icountTrigger 1 True, (icountTrigger 1 False)\<lparr>data1 := zeroControl\<lparr>mc_type := Icount\<rparr>\<rparr>],
      chainPairs = False\<rparr> False =
   (False,
     \<lparr>triggers = [icountTrigger 1 True, (icountTrigger 1 False)\<lparr>data1 := zeroControl\<lparr>mc_type := Icount\<rparr>\<rparr>],
      chainPairs = False\<rparr>)"
    by code_simp
  from v w icountTriggerHit_correct [of demoOps
     "\<lparr>triggers = [icountTrigger 1 False, icountTrigger 1 True, icountTrigger 2 False],
      chainPairs = False\<rparr>" False]
  show ?thesis by simp
qed

section \<open>Writes and pokes of register 1\<close>

lemma defineChainBounds_uniform: "chainGroupsUniform (defineChainBounds ts)"
proof -
  let ?res = "triggers (defineChainBounds ts)"
  let ?n = "length (triggers ts)"
  have "case getChainBounds (?res ! k) of
          (b, e) \<Rightarrow> b \<le> k \<and> k < e \<and> e \<le> length ?res \<and>
                    (\<forall>j\<in>set [b..<e]. getChainBounds (?res ! j) = (b, e))"
    if k: "k < ?n" for k
  proof (cases "chainPairs ts")
    case False
    from run_groups [OF False] k obtain b e where
      be: "?res ! k = setChainBounds b e (triggers ts ! k)" "b \<le> k" "k < e"
          "chainRun (triggers ts) b e"
          "\<forall>j. b \<le> j \<and> j < e \<longrightarrow> getChainBounds (?res ! j) = (b, e)"
      by blast
    have "e \<le> ?n" using be(4) by (simp add: chainRun_def)
    with be show ?thesis by simp
  next
    case True
    note pr = paired_result(2) [OF True]
    note pg = paired_groups [OF True k]
    show ?thesis
    proof (cases "even k")
      case ev: True
      show ?thesis
      proof (cases "getChain (triggers ts ! k) \<and> k + 1 < ?n")
        case c: True
        have r0: "?res ! k = setChainBounds k (k + 2) (triggers ts ! k)"
          and r1: "?res ! (k + 1) = setChainBounds k (k + 2) (triggers ts ! (k + 1))"
          using pg ev c by simp_all
        have all: "\<forall>j\<in>set [k..<k + 2]. getChainBounds (?res ! j) = (k, k + 2)"
        proof
          fix j assume "j \<in> set [k..<k + 2]"
          then have "j = k \<or> j = k + 1" by auto
          then show "getChainBounds (?res ! j) = (k, k + 2)" using r0 r1 by auto
        qed
        have gb: "getChainBounds (?res ! k) = (k, k + 2)" using r0 by simp
        show ?thesis unfolding gb prod.case
        proof (intro conjI)
          show "\<forall>j\<in>set [k..<k + 2]. getChainBounds (?res ! j) = (k, k + 2)" by fact
        qed (use c in simp_all)
      next
        case c: False
        have r0: "?res ! k = setChainBounds k (k + 1) (triggers ts ! k)"
          using pg ev c by blast
        show ?thesis using k by (simp add: r0)
      qed
    next
      case od: False
      then have k0: "0 < k" by (cases k) auto
      show ?thesis
      proof (cases "getChain (triggers ts ! (k - 1))")
        case c: True
        have km: "k - 1 < ?n" using k by simp
        have ev: "even (k - 1)" using od k0 by simp
        have r0: "?res ! k = setChainBounds (k - 1) (k + 1) (triggers ts ! k)"
          using pr [OF k] od c by simp
        have r1: "?res ! (k - 1) = setChainBounds (k - 1) (k + 1) (triggers ts ! (k - 1))"
          using pr [OF km] ev c k k0 by simp
        have all: "\<forall>j\<in>set [k - 1..<k + 1]. getChainBounds (?res ! j) = (k - 1, k + 1)"
        proof
          fix j assume "j \<in> set [k - 1..<k + 1]"
          then have "j = k - 1 \<or> j = k" using k0 by auto
          then show "getChainBounds (?res ! j) = (k - 1, k + 1)" using r0 r1 by auto
        qed
        have gb: "getChainBounds (?res ! k) = (k - 1, k + 1)" using r0 by simp
        show ?thesis unfolding gb prod.case
        proof (intro conjI)
          show "\<forall>j\<in>set [k - 1..<k + 1]. getChainBounds (?res ! j) = (k - 1, k + 1)" by fact
        qed (use k in simp_all)
      next
        case c: False
        have r0: "?res ! k = setChainBounds k (k + 1) (triggers ts ! k)"
          using pg od c by blast
        show ?thesis using k by (simp add: r0)
      qed
    qed
  qed
  then show ?thesis by (simp add: chainGroupsUniform_def)
qed

lemma writeData1_recomputes:
  assumes "unat trigIx < length (triggers ts)"
    and "trigWriteData1 ops debugMode val (triggers ts ! unat trigIx) = (True, t')"
    and "getChain t' \<noteq> getChain (triggers ts ! unat trigIx)"
  shows "writeData1 ops ts trigIx debugMode val =
           (True, defineChainBounds (ts\<lparr>triggers := (triggers ts)[unat trigIx := t']\<rparr>))"
    and "chainGroupsUniform (snd (writeData1 ops ts trigIx debugMode val))"
proof -
  show w: "writeData1 ops ts trigIx debugMode val =
           (True, defineChainBounds (ts\<lparr>triggers := (triggers ts)[unat trigIx := t']\<rparr>))"
    using assms by (auto simp: writeData1_def Let_def)
  show "chainGroupsUniform (snd (writeData1 ops ts trigIx debugMode val))"
    unfolding w by (simp add: defineChainBounds_uniform)
qed

lemma pokeData1_recomputes:
  assumes "unat trigger < length (triggers ts)"
    and "getChain (trigPokeData1 ops val (triggers ts ! unat trigger)) \<noteq>
         getChain (triggers ts ! unat trigger)"
  shows "pokeData1 ops ts trigger val =
           (True, defineChainBounds
              (ts\<lparr>triggers := (triggers ts)[unat trigger :=
                     trigPokeData1 ops val (triggers ts ! unat trigger)]\<rparr>))"
    and "chainGroupsUniform (snd (pokeData1 ops ts trigger val))"
proof -
  show w: "pokeData1 ops ts trigger val =
           (True, defineChainBounds
              (ts\<lparr>triggers := (triggers ts)[unat trigger :=
                     trigPokeData1 ops val (triggers ts ! unat trigger)]\<rparr>))"
    using assms by (auto simp: pokeData1_def Let_def)
  show "chainGroupsUniform (snd (pokeData1 ops ts trigger val))"
    unfolding w by (simp add: defineChainBounds_uniform)
qed

lemma poke_no_recompute:
  "unat trigger < length (triggers ts) \<Longrightarrow>
   poke ops ts trigger v1 v2 v3 =
     (True, ts\<lparr>triggers := (triggers ts)[unat trigger :=
        trigPokeData3 ops v3 (trigPokeData2 ops v2
          (trigPokeData1 ops v1 (triggers ts ! unat trigger)))]\<rparr>)"
  by (simp add: poke_def Let_def)

text \<open>
  Claim C1. A write or a poke of register 1 that flips the chain bit is followed by a
  recomputation of the chain bounds in \<^verbatim>\<open>writeData1\<close> and in \<^verbatim>\<open>pokeData1\<close> (the two lemmas
  above), but not in the three-register \<^verbatim>\<open>poke\<close>. On a fresh bank of two triggers, poking
  register 1 of trigger 0 with the chain bit set through \<^verbatim>\<open>poke\<close> flips the chain bit and
  leaves the ranges \<open>[0,1)\<close> and \<open>[1,2)\<close> in place, where a recomputation, and the same poke
  through \<^verbatim>\<open>pokeData1\<close>, give \<open>[0,2)\<close> to both triggers.
\<close>

theorem poke_leaves_stale_chain_bounds:
  "map getChain (triggers (newTriggers demoOps 2)) = [False, False] \<and>
   fst (poke demoOps (newTriggers demoOps 2) 0 0x800 0 0) \<and>
   map getChain (triggers (snd (poke demoOps (newTriggers demoOps 2) 0 0x800 0 0))) =
     [True, False] \<and>
   map getChainBounds (triggers (snd (poke demoOps (newTriggers demoOps 2) 0 0x800 0 0))) =
     [(0, 1), (1, 2)] \<and>
   map getChainBounds
     (triggers (defineChainBounds (snd (poke demoOps (newTriggers demoOps 2) 0 0x800 0 0)))) =
     [(0, 2), (0, 2)] \<and>
   map getChainBounds (triggers (snd (pokeData1 demoOps (newTriggers demoOps 2) 0 0x800))) =
     [(0, 2), (0, 2)]"
  by code_simp

section \<open>Configuration and index checks\<close>

lemma resize_length [simp]: "length (resize xs n dflt) = n"
  by (simp add: resize_def)

lemma resize_nth:
  "k < n \<Longrightarrow> resize xs n dflt ! k = (if k < length xs then xs ! k else dflt)"
  by (simp add: resize_def nth_append)

lemma unat_plus_one:
  fixes w :: "32 word"
  assumes "unat w + 1 < 2 ^ 32"
  shows "unat (w + 1) = unat w + 1"
  using assms by (simp add: unat_word_ariths)

lemma config_resized:
  assumes "unat trigger \<le> length (triggers ts)" "unat trigger + 1 < 2 ^ 32"
  shows "config ops ts trigger (r1, r2, r3) (w1, w2, w3) (p1, p2, p3) =
     Inr (True, defineChainBounds
       (ts\<lparr>triggers := (resize (triggers ts) (unat trigger + 1) (trigDefault ops))
          [unat trigger :=
             snd (trigWriteData2 ops True r2
               (trigConfigData3 ops r3 w3 p3
                 (trigConfigData2 ops r2 w2 p2
                   (trigConfigData1 ops r1 w1 p1
                      (resize (triggers ts) (unat trigger + 1) (trigDefault ops)
                         ! unat trigger)))))]\<rparr>))"
  using assms by (simp add: config_def Let_def unat_plus_one)

lemma config_size:
  assumes "unat trigger \<le> length (triggers ts)" "unat trigger + 1 < 2 ^ 32"
  shows "\<exists>ts'. config ops ts trigger resets wms pms = Inr (True, ts') \<and>
               length (triggers ts') = unat trigger + 1 \<and> chainPairs ts' = chainPairs ts"
proof -
  obtain r1 r2 r3 where r: "resets = (r1, r2, r3)" by (cases resets) auto
  obtain w1 w2 w3 where w: "wms = (w1, w2, w3)" by (cases wms) auto
  obtain p1 p2 p3 where p: "pms = (p1, p2, p3)" by (cases pms) auto
  show ?thesis unfolding r w p config_resized [OF assms] by simp
qed

lemma config_throws:
  assumes "length (triggers ts) < unat trigger"
  shows "config ops ts trigger resets wms pms = Inl OutOfRange"
  using assms by (simp add: config_def Let_def split: prod.split)

lemma defineChainBounds_only_bounds:
  assumes "k < length (triggers ts)"
  shows "\<exists>b e. triggers (defineChainBounds ts) ! k = setChainBounds b e (triggers ts ! k)"
proof (cases "chainPairs ts")
  case True
  from paired_result(2) [OF True assms] show ?thesis
    by (cases "even k"; cases "getChain (triggers ts ! k) \<and> k + 1 < length (triggers ts)";
        cases "getChain (triggers ts ! (k - 1))") (simp_all, blast+)
next
  case False
  from run_groups [OF False] assms show ?thesis by blast
qed

lemma config_appends:
  assumes "unat trigger = length (triggers ts)" "length (triggers ts) + 1 < 2 ^ 32"
  shows "\<exists>ts'. config ops ts trigger resets wms pms = Inr (True, ts') \<and>
               length (triggers ts') = length (triggers ts) + 1 \<and>
               (\<forall>k<length (triggers ts). \<exists>b e.
                  triggers ts' ! k = setChainBounds b e (triggers ts ! k))"
proof -
  obtain r1 r2 r3 where r: "resets = (r1, r2, r3)" by (cases resets) auto
  obtain w1 w2 w3 where w: "wms = (w1, w2, w3)" by (cases wms) auto
  obtain p1 p2 p3 where p: "pms = (p1, p2, p3)" by (cases pms) auto
  let ?n = "length (triggers ts)"
  define grown where "grown = resize (triggers ts) (?n + 1) (trigDefault ops)"
  define t where "t = snd (trigWriteData2 ops True r2
               (trigConfigData3 ops r3 w3 p3
                 (trigConfigData2 ops r2 w2 p2
                   (trigConfigData1 ops r1 w1 p1 (grown ! ?n)))))"
  define ts1 where "ts1 = ts\<lparr>triggers := grown[?n := t]\<rparr>"
  have a1: "unat trigger \<le> ?n" and a2: "unat trigger + 1 < 2 ^ 32" using assms by simp_all
  have c: "config ops ts trigger resets wms pms = Inr (True, defineChainBounds ts1)"
    unfolding r w p config_resized [OF a1 a2] by (simp add: assms(1) ts1_def t_def grown_def)
  have len1: "length (triggers ts1) = ?n + 1" by (simp add: ts1_def grown_def)
  have keep: "triggers ts1 ! k = triggers ts ! k" if "k < ?n" for k
    using that by (simp add: ts1_def grown_def resize_nth)
  have "\<exists>b e. triggers (defineChainBounds ts1) ! k = setChainBounds b e (triggers ts ! k)"
    if "k < ?n" for k
  proof -
    have "k < length (triggers ts1)" using that len1 by simp
    from defineChainBounds_only_bounds [OF this] keep [OF that] show ?thesis by simp
  qed
  then have "\<forall>k<?n. \<exists>b e. triggers (defineChainBounds ts1) ! k = setChainBounds b e (triggers ts ! k)"
    by blast
  with c len1 show ?thesis by simp
qed

text \<open>
  Claim C2. \<^verbatim>\<open>config\<close> resizes the bank to \<open>index + 1\<close> whenever the index is at most the
  size (\<open>config_size\<close>), so it does not only grow it: on a bank of three triggers,
  \<^verbatim>\<open>config(0, ...)\<close> returns true and leaves a bank of one trigger, and
  \<^verbatim>\<open>config(4, ...)\<close> throws. (With the index equal to the size it appends one trigger
  and changes nothing but the chain ranges of the others: \<open>config_appends\<close>.)
\<close>

theorem config_shrinks_bank:
  "length (triggers (newTriggers demoOps 3)) = 3 \<and>
   \<not> isl (config demoOps (newTriggers demoOps 3) 0 (0, 0, 0) (0, 0, 0) (0, 0, 0)) \<and>
   fst (projr (config demoOps (newTriggers demoOps 3) 0 (0, 0, 0) (0, 0, 0) (0, 0, 0))) \<and>
   length (triggers (snd (projr
     (config demoOps (newTriggers demoOps 3) 0 (0, 0, 0) (0, 0, 0) (0, 0, 0))))) = 1 \<and>
   config demoOps (newTriggers demoOps 3) 4 (0, 0, 0) (0, 0, 0) (0, 0, 0) = Inl OutOfRange"
  by code_simp

text \<open>
  Claim C9, as the source has it. Every index-checked operation (\<^verbatim>\<open>readData1/2/3\<close>,
  \<^verbatim>\<open>writeData1/2/3\<close>, the two \<^verbatim>\<open>peek\<close>s, \<^verbatim>\<open>poke\<close>, \<^verbatim>\<open>pokeData1/2/3\<close>) called with an
  index that is not below the number of triggers returns false and leaves the bank and
  the caller's output variables as they were. \<^verbatim>\<open>config\<close> is not index-checked in this
  way: called with the index equal to the number of triggers it appends one trigger and
  returns true.
\<close>

theorem out_of_range_index_rejected:
  assumes "length (triggers ts) \<le> unat trigger"
  shows "readData1 ops ts trigger val = (False, val, ts) \<and>
         readData2 ops ts trigger val = (False, val, ts) \<and>
         readData3 ops ts trigger val = (False, val, ts) \<and>
         writeData1 ops ts trigger debugMode val = (False, ts) \<and>
         writeData2 ops ts trigger debugMode val = (False, ts) \<and>
         writeData3 ops ts trigger debugMode val = (False, ts) \<and>
         peek ops ts trigger outs = (False, outs, ts) \<and>
         peekMasks ops ts trigger outsMasks = (False, outsMasks, ts) \<and>
         poke ops ts trigger v1 v2 v3 = (False, ts) \<and>
         pokeData1 ops ts trigger val = (False, ts) \<and>
         pokeData2 ops ts trigger val = (False, ts) \<and>
         pokeData3 ops ts trigger val = (False, ts) \<and>
         (unat cfgIx = length (triggers ts) \<and> length (triggers ts) + 1 < 2 ^ 32 \<longrightarrow>
            (\<exists>ts'. config ops ts cfgIx resets wms pms = Inr (True, ts') \<and>
                   length (triggers ts') = length (triggers ts) + 1))"
proof -
  have cfg: "unat cfgIx = length (triggers ts) \<and> length (triggers ts) + 1 < 2 ^ 32 \<longrightarrow>
            (\<exists>ts'. config ops ts cfgIx resets wms pms = Inr (True, ts') \<and>
                   length (triggers ts') = length (triggers ts) + 1)"
  proof
    assume a: "unat cfgIx = length (triggers ts) \<and> length (triggers ts) + 1 < 2 ^ 32"
    then have "unat cfgIx \<le> length (triggers ts)" "unat cfgIx + 1 < 2 ^ 32" by simp_all
    from config_size [OF this, of ops resets wms pms] a
    show "\<exists>ts'. config ops ts cfgIx resets wms pms = Inr (True, ts') \<and>
                   length (triggers ts') = length (triggers ts) + 1" by auto
  qed
  from assms cfg show ?thesis
    by (simp add: readData1_def readData2_def readData3_def writeData1_def writeData2_def
          writeData3_def peek_def peekMasks_def poke_def pokeData1_def pokeData2_def
          pokeData3_def)
qed

theorem out_of_range_index_rejected_witness:
  "length (triggers (newTriggers demoOps 2)) \<le> unat (2 :: 32 word) \<and>
   readData1 demoOps (newTriggers demoOps 2) 2 7 = (False, 7, newTriggers demoOps 2) \<and>
   writeData1 demoOps (newTriggers demoOps 2) 2 True 0x800 = (False, newTriggers demoOps 2) \<and>
   poke demoOps (newTriggers demoOps 2) 2 0x800 1 1 = (False, newTriggers demoOps 2) \<and>
   pokeData1 demoOps (newTriggers demoOps 2) 2 0x800 = (False, newTriggers demoOps 2) \<and>
   \<not> isl (config demoOps (newTriggers demoOps 2) 2 (0, 0, 0) (0, 0, 0) (0, 0, 0)) \<and>
   length (triggers (snd (projr
     (config demoOps (newTriggers demoOps 2) 2 (0, 0, 0) (0, 0, 0) (0, 0, 0))))) = 3"
proof -
  have h: "length (triggers (newTriggers demoOps 2)) \<le> unat (2 :: 32 word)"
    by code_simp
  have c: "\<not> isl (config demoOps (newTriggers demoOps 2) 2 (0, 0, 0) (0, 0, 0) (0, 0, 0))"
    "length (triggers (snd (projr
     (config demoOps (newTriggers demoOps 2) 2 (0, 0, 0) (0, 0, 0) (0, 0, 0))))) = 3"
    by code_simp+
  from out_of_range_index_rejected [OF h, of demoOps] h c show ?thesis by simp
qed

text \<open>
  Claim C9 as stated fails for \<^verbatim>\<open>config\<close>: on a bank of one trigger, \<^verbatim>\<open>config(1, ...)\<close>
  has an index that is not below the count, and it returns true and leaves two triggers.
\<close>

theorem config_at_count_counterexample:
  "length (triggers (newTriggers demoOps 1)) \<le> unat (1 :: 32 word) \<and>
   config demoOps (newTriggers demoOps 1) 1 (0, 0, 0) (0, 0, 0) (0, 0, 0) \<noteq>
     Inr (False, newTriggers demoOps 1) \<and>
   \<not> isl (config demoOps (newTriggers demoOps 1) 1 (0, 0, 0) (0, 0, 0) (0, 0, 0)) \<and>
   fst (projr (config demoOps (newTriggers demoOps 1) 1 (0, 0, 0) (0, 0, 0) (0, 0, 0))) \<and>
   length (triggers (snd (projr
     (config demoOps (newTriggers demoOps 1) 1 (0, 0, 0) (0, 0, 0) (0, 0, 0))))) = 2"
  by code_simp

section \<open>Properties of the event hits\<close>

lemma bankAfter_0: "bankAfter matchFn ie ts 0 = ts"
proof -
  have "map (\<lambda>k. (triggers ts ! k)\<lparr>localHit := localHitAfter matchFn ie ts 0 k,
                                      hit := hitAfter matchFn ie ts 0 k\<rparr>)
            [0..<length (triggers ts)] = map (\<lambda>k. triggers ts ! k) [0..<length (triggers ts)]"
    by (rule map_cong) (simp_all add: localHitAfter_def hitAfter_def)
  then show ?thesis by (simp add: bankAfter_def map_nth)
qed

lemma bankAfter_length [simp]:
  "length (triggers (bankAfter matchFn ie ts i)) = length (triggers ts)"
  by (simp add: bankAfter_def)

lemma bankAfter_nth:
  "k < length (triggers ts) \<Longrightarrow>
   triggers (bankAfter matchFn ie ts i) ! k =
     (triggers ts ! k)\<lparr>localHit := localHitAfter matchFn ie ts i k,
                        hit := hitAfter matchFn ie ts i k\<rparr>"
  by (simp add: bankAfter_def)

lemma bankAfter_chainPairs [simp]: "chainPairs (bankAfter matchFn ie ts i) = chainPairs ts"
  by (simp add: bankAfter_def)

lemma bank_eqI:
  assumes "chainPairs a = chainPairs b" "length (triggers a) = length (triggers b)"
    "\<And>k. k < length (triggers b) \<Longrightarrow> triggers a ! k = triggers b ! k"
  shows "a = (b :: 'a::len Triggers)"
proof -
  have "triggers a = triggers b" using assms(2,3) by (simp add: nth_equalityI)
  with assms(1) show ?thesis by simp
qed

lemma localHitAfter_Suc:
  "localHitAfter matchFn ie ts (Suc i) k =
     (localHitAfter matchFn ie ts i k \<or> (k = i \<and> matchesAt matchFn ie ts i))"
  by (auto simp: localHitAfter_def less_Suc_eq)

lemma hitAfter_Suc:
  "hitAfter matchFn ie ts (Suc i) k =
     (hitAfter matchFn ie ts i k \<or>
      (resolves matchFn ie ts i \<and>
       chainBegin (triggers ts ! i) \<le> k \<and> k < chainEnd (triggers ts ! i)))"
  by (auto simp: hitAfter_def less_Suc_eq)

lemma bankAfter_skip:
  assumes "\<not> matchesAt matchFn ie ts i"
  shows "bankAfter matchFn ie ts (Suc i) = bankAfter matchFn ie ts i"
proof -
  have "\<not> resolves matchFn ie ts i" using assms by (simp add: resolves_def)
  with assms show ?thesis
    by (simp add: bankAfter_def localHitAfter_Suc hitAfter_Suc)
qed


lemma updateChainHitBit_bankAfter:
  assumes wf: "\<forall>t\<in>set (triggers ts). chainEnd t \<le> length (triggers ts)"
    and i: "i < length (triggers ts)"
    and f: "matchesAt matchFn ie ts i"
  shows "updateChainHitBit
           ((bankAfter matchFn ie ts i)\<lparr>triggers :=
              (triggers (bankAfter matchFn ie ts i))
                [i := setLocalHit True (triggers (bankAfter matchFn ie ts i) ! i)]\<rparr>)
           (setLocalHit True (triggers (bankAfter matchFn ie ts i) ! i)) =
         Inr (resolves matchFn ie ts i, bankAfter matchFn ie ts (Suc i))"
proof -
  let ?n = "length (triggers ts)"
  let ?S = "bankAfter matchFn ie ts i"
  define trigger2 where "trigger2 = setLocalHit True (triggers ?S ! i)"
  define S2 where "S2 = ?S\<lparr>triggers := (triggers ?S)[i := trigger2]\<rparr>"
  let ?cb = "chainBegin (triggers ts ! i)"
  let ?ce = "chainEnd (triggers ts ! i)"
  have t2: "trigger2 = (triggers ts ! i)\<lparr>localHit := True, hit := hitAfter matchFn ie ts i i\<rparr>"
    using i by (simp add: trigger2_def bankAfter_nth setLocalHit_def)
  have cb: "chainBegin trigger2 = ?cb" and ce: "chainEnd trigger2 = ?ce"
    and tm: "getTiming trigger2 = getTiming (triggers ts ! i)"
    by (simp_all add: t2 getTiming_def)
  have cen: "?ce \<le> ?n" using wf i by simp
  have len2: "length (triggers S2) = ?n" by (simp add: S2_def)
  have nth2: "triggers S2 ! k =
      (triggers ts ! k)\<lparr>localHit := localHitAfter matchFn ie ts (Suc i) k,
                         hit := hitAfter matchFn ie ts i k\<rparr>" if k: "k < ?n" for k
  proof (cases "k = i")
    case True
    then show ?thesis using i f by (simp add: S2_def t2 localHitAfter_Suc)
  next
    case False
    then show ?thesis using k by (simp add: S2_def bankAfter_nth localHitAfter_Suc)
  qed
  have "chainEnd trigger2 \<le> length (triggers S2)" using cen by (simp add: ce len2)
  from updateChainHitBit_cases [OF this]
  obtain b ts' where
    u: "updateChainHitBit S2 trigger2 = Inr (b, ts')"
    and b: "b \<longleftrightarrow> (\<forall>k. chainBegin trigger2 \<le> k \<and> k < chainEnd trigger2 \<longrightarrow>
                     localHit (triggers S2 ! k) \<and>
                     getTiming (triggers S2 ! k) = getTiming trigger2)"
    and bt: "b \<longrightarrow> chainPairs ts' = chainPairs S2 \<and>
                  length (triggers ts') = length (triggers S2) \<and>
                  (\<forall>k<length (triggers S2).
                     triggers ts' ! k =
                       (if chainBegin trigger2 \<le> k \<and> k < chainEnd trigger2
                        then (triggers S2 ! k)\<lparr>hit := True\<rparr> else triggers S2 ! k))"
    and bf: "\<not> b \<longrightarrow> ts' = S2"
    by (elim exE conjE)
  have br: "b = resolves matchFn ie ts i"
  proof -
    have "(\<forall>k. ?cb \<le> k \<and> k < ?ce \<longrightarrow>
                     localHit (triggers S2 ! k) \<and>
                     getTiming (triggers S2 ! k) = getTiming (triggers ts ! i)) =
          (\<forall>k\<in>set [?cb..<?ce]. localHitAfter matchFn ie ts (i + 1) k \<and>
                getTiming (triggers ts ! k) = getTiming (triggers ts ! i))"
    proof -
      have "localHit (triggers S2 ! k) = localHitAfter matchFn ie ts (i + 1) k \<and>
            getTiming (triggers S2 ! k) = getTiming (triggers ts ! k)"
        if "?cb \<le> k \<and> k < ?ce" for k
      proof -
        from that cen have "k < ?n" by simp
        from nth2 [OF this] show ?thesis by (simp add: getTiming_def)
      qed
      then show ?thesis by auto
    qed
    then show ?thesis unfolding b cb ce tm using f by (simp add: resolves_def)
  qed
  have "ts' = bankAfter matchFn ie ts (Suc i)"
  proof (cases b)
    case True
    with bt have p: "chainPairs ts' = chainPairs S2" "length (triggers ts') = length (triggers S2)"
      and n: "\<forall>k<length (triggers S2).
                     triggers ts' ! k =
                       (if chainBegin trigger2 \<le> k \<and> k < chainEnd trigger2
                        then (triggers S2 ! k)\<lparr>hit := True\<rparr> else triggers S2 ! k)"
      by blast+
    show ?thesis
    proof (rule bank_eqI)
      show "chainPairs ts' = chainPairs (bankAfter matchFn ie ts (Suc i))"
        using p(1) by (simp add: S2_def)
      show "length (triggers ts') = length (triggers (bankAfter matchFn ie ts (Suc i)))"
        using p(2) by (simp add: len2)
      fix k assume "k < length (triggers (bankAfter matchFn ie ts (Suc i)))"
      then have k: "k < ?n" by simp
      have r: "resolves matchFn ie ts i" using True br by simp
      from n k have "triggers ts' ! k =
                       (if ?cb \<le> k \<and> k < ?ce
                        then (triggers S2 ! k)\<lparr>hit := True\<rparr> else triggers S2 ! k)"
        by (simp add: len2 cb ce)
      then show "triggers ts' ! k = triggers (bankAfter matchFn ie ts (Suc i)) ! k"
      proof (cases "?cb \<le> k \<and> k < ?ce")
        case True
        then show ?thesis using r \<open>triggers ts' ! k = _\<close>
          by (simp add: nth2 [OF k] bankAfter_nth [OF k] hitAfter_Suc)
      next
        case False
        then have F: "(?cb \<le> k \<and> k < ?ce) = False" by simp
        show ?thesis using r \<open>triggers ts' ! k = _\<close>
          by (simp add: nth2 [OF k] bankAfter_nth [OF k] hitAfter_Suc F)
      qed
    qed
  next
    case False
    with bf have e: "ts' = S2" by blast
    have r: "\<not> resolves matchFn ie ts i" using False br by simp
    show ?thesis unfolding e
    proof (rule bank_eqI)
      show "chainPairs S2 = chainPairs (bankAfter matchFn ie ts (Suc i))"
        by (simp add: S2_def)
      show "length (triggers S2) = length (triggers (bankAfter matchFn ie ts (Suc i)))"
        by (simp add: len2)
      fix k assume "k < length (triggers (bankAfter matchFn ie ts (Suc i)))"
      then have k: "k < ?n" by simp
      show "triggers S2 ! k = triggers (bankAfter matchFn ie ts (Suc i)) ! k"
        using r by (simp add: nth2 [OF k] bankAfter_nth [OF k] hitAfter_Suc)
    qed
  qed
  with u br show ?thesis unfolding S2_def trigger2_def by simp
qed

lemma hitLoop_step:
  assumes obs: "observer matchFn"
    and wf: "\<forall>t\<in>set (triggers ts). chainEnd t \<le> length (triggers ts)"
    and i: "i < length (triggers ts)"
  shows "hitLoop matchFn ie (bankAfter matchFn ie ts i) (i # is) acc =
         hitLoop matchFn ie (bankAfter matchFn ie ts (Suc i)) is
           (acc \<or> resolves matchFn ie ts i)"
proof -
  let ?S = "bankAfter matchFn ie ts i"
  let ?trigger = "triggers ?S ! i"
  have tr: "?trigger = (triggers ts ! i)\<lparr>localHit := localHitAfter matchFn ie ts i i,
                                         hit := hitAfter matchFn ie ts i i\<rparr>"
    using i by (rule bankAfter_nth)
  have gate: "isEnterDebugOnHit ?trigger = isEnterDebugOnHit (triggers ts ! i)"
    by (simp add: tr isEnterDebugOnHit_def)
  have m1: "fst (matchFn ?trigger) = fst (matchFn (triggers ts ! i))"
    unfolding tr using obs by (simp add: observer_def)
  have m2: "snd (matchFn ?trigger) = ?trigger"
    using obs by (simp add: observer_def)
  have mm: "matchFn ?trigger = (fst (matchFn (triggers ts ! i)), ?trigger)"
    by (simp add: prod_eq_iff m1 m2)
  have same: "?S\<lparr>triggers := (triggers ?S)[i := ?trigger]\<rparr> = ?S" by simp
  show ?thesis
  proof (cases "matchesAt matchFn ie ts i")
    case False
    then have nr: "\<not> resolves matchFn ie ts i" by (simp add: resolves_def)
    have "hitLoop matchFn ie ?S (i # is) acc = hitLoop matchFn ie ?S is acc"
    proof (cases "\<not> isEnterDebugOnHit (triggers ts ! i) \<and> \<not> ie")
      case True
      show ?thesis unfolding hitLoop.simps Let_def gate using True by simp
    next
      case g: False
      with False have nm: "\<not> fst (matchFn (triggers ts ! i))" by (auto simp: matchesAt_def firesOnInterruptOnly_def)
      show ?thesis unfolding hitLoop.simps Let_def gate mm if_not_P [OF g] using nm
        by (simp add: same)
    qed
    then show ?thesis using nr by (simp add: bankAfter_skip [OF False])
  next
    case True
    then have g: "\<not> (\<not> isEnterDebugOnHit (triggers ts ! i) \<and> \<not> ie)"
      and m: "fst (matchFn (triggers ts ! i))" by (auto simp: matchesAt_def firesOnInterruptOnly_def)
    note u = updateChainHitBit_bankAfter [OF wf i True]
    have "hitLoop matchFn ie ?S (i # is) acc =
          hitLoop matchFn ie (bankAfter matchFn ie ts (Suc i)) is
            (if resolves matchFn ie ts i then True else acc)"
      unfolding hitLoop.simps Let_def gate mm if_not_P [OF g] using m
      by (simp add: same u)
    then show ?thesis by auto
  qed
qed

lemma hitLoop_closed:
  assumes obs: "observer matchFn"
    and wf: "\<forall>t\<in>set (triggers ts). chainEnd t \<le> length (triggers ts)"
    and "is = [i..<length (triggers ts)]" "i \<le> length (triggers ts)"
  shows "hitLoop matchFn ie (bankAfter matchFn ie ts i) is acc =
         Inr (acc \<or> (\<exists>j\<in>set [i..<length (triggers ts)]. resolves matchFn ie ts j),
              bankAfter matchFn ie ts (length (triggers ts)))"
  using assms(3,4)
proof (induction "is" arbitrary: i acc)
  case Nil
  from Nil.prems(1) [symmetric] Nil.prems(2) have "i = length (triggers ts)" by auto
  then show ?case by simp
next
  case (Cons a "is")
  from Cons.prems(1) [symmetric] have ai: "a = i" and il: "i < length (triggers ts)"
    and rest: "is = [Suc i..<length (triggers ts)]"
    by (auto simp: upt_eq_Cons_conv)
  have sil: "Suc i \<le> length (triggers ts)" using il by simp
  have split: "(\<exists>j\<in>set [i..<length (triggers ts)]. resolves matchFn ie ts j) =
               (resolves matchFn ie ts i \<or>
                (\<exists>j\<in>set [Suc i..<length (triggers ts)]. resolves matchFn ie ts j))"
    using il by (auto simp: upt_conv_Cons)
  show ?case
    unfolding ai hitLoop_step [OF obs wf il] Cons.IH [OF rest sil] split
    by (simp add: disj_assoc)
qed

lemma interrupt_gate:
  "(\<not> isEnterDebugOnHit t \<and> \<not> ie) = (\<not> (\<not> firesOnInterruptOnly t \<or> ie))"
  by (simp add: firesOnInterruptOnly_def)

lemma doMatch_fst_flags:
  "fst (doMatch (t\<lparr>localHit := l, hit := h\<rparr>) item) = fst (doMatch t item)"
  by (simp add: doMatch_def Let_def split: option.split Match.split)

lemma observer_matchLdStAddr: "observer (\<lambda>t. matchLdStAddr t address timing isLoad)"
  unfolding observer_def
proof (intro conjI allI)
  fix t :: "'a Trigger" and l h
  show "fst (matchLdStAddr (t\<lparr>localHit := l, hit := h\<rparr>) address timing isLoad) =
        fst (matchLdStAddr t address timing isLoad)"
    by (auto simp: matchLdStAddr_def doMatch_fst_flags Let_def)
qed (simp add: matchLdStAddr_snd)

lemma observer_matchLdStData: "observer (\<lambda>t. matchLdStData t val timing isLoad)"
  unfolding observer_def
proof (intro conjI allI)
  fix t :: "'a Trigger" and l h
  show "fst (matchLdStData (t\<lparr>localHit := l, hit := h\<rparr>) val timing isLoad) =
        fst (matchLdStData t val timing isLoad)"
    by (auto simp: matchLdStData_def doMatch_fst_flags Let_def)
qed (simp add: matchLdStData_snd)

lemma observer_matchInstAddr: "observer (\<lambda>t. matchInstAddr t address timing)"
  unfolding observer_def
proof (intro conjI allI)
  fix t :: "'a Trigger" and l h
  show "fst (matchInstAddr (t\<lparr>localHit := l, hit := h\<rparr>) address timing) =
        fst (matchInstAddr t address timing)"
    by (auto simp: matchInstAddr_def doMatch_fst_flags Let_def)
qed (simp add: matchInstAddr_snd)

lemma observer_matchInstOpcode: "observer (\<lambda>t. matchInstOpcode t opcode timing)"
  unfolding observer_def
proof (intro conjI allI)
  fix t :: "'a Trigger" and l h
  show "fst (matchInstOpcode (t\<lparr>localHit := l, hit := h\<rparr>) opcode timing) =
        fst (matchInstOpcode t opcode timing)"
    by (auto simp: matchInstOpcode_def doMatch_fst_flags Let_def)
qed (simp add: matchInstOpcode_snd)

lemma hitLoop_all:
  assumes "observer matchFn"
    and "\<forall>t\<in>set (triggers ts). chainEnd t \<le> length (triggers ts)"
  shows "hitLoop matchFn ie ts [0..<length (triggers ts)] False =
         Inr (anyResolves matchFn ie ts, bankAfter matchFn ie ts (length (triggers ts)))"
  using hitLoop_closed [OF assms refl, of 0 ie False]
  by (simp add: bankAfter_0 anyResolves_def)

text \<open>
  Claim C4. On a bank whose chain ranges lie within the bank, each of the four event-hit
  functions (load/store address, load/store data, instruction address, instruction opcode)
  returns normally after visiting every trigger in order. A trigger is skipped unless
  \<^verbatim>\<open>firesOnInterruptOnly()\<close> is false or interrupts are enabled (the gate of the source,
  \<open>interrupt_gate\<close>), and skipped unless its match method returns true; on a match its
  \<open>localHit\<close> is set and its chain is resolved, which sets \<open>hit\<close> on the whole range when
  every member has \<open>localHit\<close> and the trigger's timing. The call returns true if and only
  if the chain of at least one trigger resolved during the call, and nothing but the
  \<open>localHit\<close> and \<open>hit\<close> flags changes.
\<close>

theorem event_hits_resolve_chains:
  assumes "\<forall>t\<in>set (triggers ts). chainEnd t \<le> length (triggers ts)"
  shows "ldStAddrTriggerHit ts item timing isLoad ie =
           Inr (anyResolves (\<lambda>t. matchLdStAddr t item timing isLoad) ie ts,
                bankAfter (\<lambda>t. matchLdStAddr t item timing isLoad) ie ts (length (triggers ts))) \<and>
         ldStDataTriggerHit ts item timing isLoad ie =
           Inr (anyResolves (\<lambda>t. matchLdStData t item timing isLoad) ie ts,
                bankAfter (\<lambda>t. matchLdStData t item timing isLoad) ie ts (length (triggers ts))) \<and>
         instAddrTriggerHit ts item timing ie =
           Inr (anyResolves (\<lambda>t. matchInstAddr t item timing) ie ts,
                bankAfter (\<lambda>t. matchInstAddr t item timing) ie ts (length (triggers ts))) \<and>
         instOpcodeTriggerHit ts item timing ie =
           Inr (anyResolves (\<lambda>t. matchInstOpcode t item timing) ie ts,
                bankAfter (\<lambda>t. matchInstOpcode t item timing) ie ts (length (triggers ts)))"
  unfolding ldStAddrTriggerHit_def ldStDataTriggerHit_def instAddrTriggerHit_def
    instOpcodeTriggerHit_def
  using hitLoop_all [OF observer_matchLdStAddr assms]
        hitLoop_all [OF observer_matchLdStData assms]
        hitLoop_all [OF observer_matchInstAddr assms]
        hitLoop_all [OF observer_matchInstOpcode assms]
  by (intro conjI)

text \<open>
  Two chained triggers that both match with interrupts enabled: the chain resolves at the
  second one. With interrupts disabled, a matching trigger that fires on interrupts only
  is skipped, and one that does not is evaluated.
\<close>

theorem event_hits_resolve_chains_witness:
  "map chainEnd (triggers (defineChainBounds (chainBank False [True, False]))) = [2, 2] \<and>
   length (triggers (defineChainBounds (chainBank False [True, False]))) = 2 \<and>
   ldStAddrTriggerHit (defineChainBounds (chainBank False [True, False])) 5 Before True True =
     Inr (True, (defineChainBounds (chainBank False [True, False]))\<lparr>triggers :=
            map (\<lambda>t. t\<lparr>hit := True, localHit := True\<rparr>)
              (triggers (defineChainBounds (chainBank False [True, False])))\<rparr>) \<and>
   ldStAddrTriggerHit (defineChainBounds (chainBank False [True, False])) 6 Before True True =
     Inr (False, defineChainBounds (chainBank False [True, False])) \<and>
   firesOnInterruptOnly (triggers (singleBank False) ! 0) \<and>
   fst (matchLdStAddr (triggers (singleBank False) ! 0) 5 Before True) \<and>
   ldStAddrTriggerHit (singleBank False) 5 Before True False = Inr (False, singleBank False) \<and>
   \<not> firesOnInterruptOnly (triggers (singleBank True) ! 0) \<and>
   ldStAddrTriggerHit (singleBank True) 5 Before True False =
     Inr (True, (singleBank True)\<lparr>triggers :=
                  [(triggers (singleBank True) ! 0)\<lparr>hit := True, localHit := True\<rparr>]\<rparr>)"
proof -
  have h: "\<forall>t\<in>set (triggers (defineChainBounds (chainBank False [True, False]))).
      chainEnd t \<le> length (triggers (defineChainBounds (chainBank False [True, False])))"
    by code_simp
  have v: "ldStAddrTriggerHit (defineChainBounds (chainBank False [True, False])) 5 Before True True =
     Inr (True, (defineChainBounds (chainBank False [True, False]))\<lparr>triggers :=
            map (\<lambda>t. t\<lparr>hit := True, localHit := True\<rparr>)
              (triggers (defineChainBounds (chainBank False [True, False])))\<rparr>)"
    by code_simp
  have w: "ldStAddrTriggerHit (defineChainBounds (chainBank False [True, False])) 6 Before True True =
     Inr (False, defineChainBounds (chainBank False [True, False]))"
    by code_simp
  have c: "map chainEnd (triggers (defineChainBounds (chainBank False [True, False]))) = [2, 2]"
    "length (triggers (defineChainBounds (chainBank False [True, False]))) = 2"
    by code_simp+
  have g: "firesOnInterruptOnly (triggers (singleBank False) ! 0)"
    "fst (matchLdStAddr (triggers (singleBank False) ! 0) 5 Before True)"
    "ldStAddrTriggerHit (singleBank False) 5 Before True False = Inr (False, singleBank False)"
    "\<not> firesOnInterruptOnly (triggers (singleBank True) ! 0)"
    "ldStAddrTriggerHit (singleBank True) 5 Before True False =
       Inr (True, (singleBank True)\<lparr>triggers :=
                  [(triggers (singleBank True) ! 0)\<lparr>hit := True, localHit := True\<rparr>]\<rparr>)"
    by code_simp+
  from c v w g event_hits_resolve_chains [OF h, of 5 Before True True] show ?thesis by simp
qed

end
